theory Spec2Isabelle
  imports Complex_Main "HOL-Library.Extended_Nat"
begin

unbundle bit_operations_syntax

section \<open>Fingerprints and the two distance functions\<close>

text \<open>
  A fingerprint is a JavaScript string of hexadecimal digits, here a \<open>string\<close>.
  Both classes of the image module carry their own \<open>hammingDistance\<close>:
  \<open>ImageProcessor.hammingDistance\<close> throws on strings of different length,
  \<open>AdvancedImageMatcher.hammingDistance\<close> returns \<open>Infinity\<close> there.
\<close>

datatype error = HashLengthsMustBeEqual | UnsupportedImage

text \<open>
  \<open>parseInt(c, 16)\<close> on a one-character string: the digit's value, or \<open>NaN\<close>
  (here \<open>None\<close>) when the character is no hexadecimal digit.
\<close>

definition parseInt16 :: "char \<Rightarrow> nat option" where
  "parseInt16 c =
     (let n = (of_char c :: nat) in
      if 48 \<le> n \<and> n \<le> 57 then Some (n - 48)
      else if 97 \<le> n \<and> n \<le> 102 then Some (n - 87)
      else if 65 \<le> n \<and> n \<le> 70 then Some (n - 55)
      else None)"

text \<open>The operator \<open>^\<close> converts its operands with ToInt32, which sends \<open>NaN\<close> to 0.\<close>

definition toInt32 :: "nat option \<Rightarrow> nat" where
  "toInt32 v = (case v of None \<Rightarrow> 0 | Some n \<Rightarrow> n)"

definition jsXor :: "nat option \<Rightarrow> nat option \<Rightarrow> nat" where
  "jsXor a b = toInt32 a XOR toInt32 b"

text \<open>\<open>countSetBits\<close>: \<open>while (n) { count += n & 1; n >>= 1 }\<close>.\<close>

function countSetBits :: "nat \<Rightarrow> nat" where
  "countSetBits n = (if n = 0 then 0 else (n AND 1) + countSetBits (drop_bit 1 n))"
  by pat_completeness auto
termination
  by (relation "measure (\<lambda>n. n)") (auto simp: drop_bit_eq_div)

declare countSetBits.simps [simp del]

text \<open>\<open>ImageProcessor.hammingDistance\<close>; the loop runs over the indices of \<open>hash1\<close>.\<close>

definition hammingDistance :: "string \<Rightarrow> string \<Rightarrow> error + nat" where
  "hammingDistance hash1 hash2 =
     (if length hash1 \<noteq> length hash2 then Inl HashLengthsMustBeEqual
      else Inr (fold (\<lambda>i distance.
                   distance + countSetBits (jsXor (parseInt16 (hash1 ! i)) (parseInt16 (hash2 ! i))))
                 [0..<length hash1] 0))"

text \<open>\<open>Number.prototype.toString(2)\<close> on a non-negative integer.\<close>

fun toString2 :: "nat \<Rightarrow> string" where
  "toString2 n =
     (if n < 2 then [if n = 0 then CHR ''0'' else CHR ''1'']
      else toString2 (n div 2) @ [if n mod 2 = 0 then CHR ''0'' else CHR ''1''])"

declare toString2.simps [simp del]

text \<open>\<open>String.prototype.split\<close> with a one-character separator.\<close>

fun split_at :: "char \<Rightarrow> string \<Rightarrow> string list" where
  "split_at c [] = [[]]"
| "split_at c (x # xs) =
     (if x = c then [] # split_at c xs
      else (case split_at c xs of
              [] \<Rightarrow> [[x]]
            | w # ws \<Rightarrow> (x # w) # ws))"

text \<open>
  \<open>AdvancedImageMatcher.hammingDistance\<close>: the distance is a JavaScript number that may
  be \<open>Infinity\<close>, here an \<open>enat\<close>.
\<close>

definition hammingDistance_adv :: "string \<Rightarrow> string \<Rightarrow> enat" where
  "hammingDistance_adv hash1 hash2 =
     (if length hash1 \<noteq> length hash2 then \<infinity>
      else enat (fold (\<lambda>i distance.
                   distance + (length (split_at CHR ''1''
                       (toString2 (jsXor (parseInt16 (hash1 ! i)) (parseInt16 (hash2 ! i))))) - 1))
                 [0..<length hash1] 0))"

subsection \<open>The specification's distance: differing bit positions\<close>

text \<open>
  The bit vector of a fingerprint, four bits for each hexadecimal digit, most significant
  first, and the number of positions at which two bit vectors differ.
\<close>

definition is_hex :: "string \<Rightarrow> bool" where
  "is_hex s = list_all (\<lambda>c. parseInt16 c \<noteq> None) s"

definition nibble_bits :: "nat \<Rightarrow> bool list" where
  "nibble_bits n = [odd (n div 8), odd (n div 4), odd (n div 2), odd n]"

definition hex_bits :: "string \<Rightarrow> bool list" where
  "hex_bits s = concat (map (\<lambda>c. nibble_bits (toInt32 (parseInt16 c))) s)"

definition differing_bits :: "bool list \<Rightarrow> bool list \<Rightarrow> nat" where
  "differing_bits xs ys = length (filter (\<lambda>(x, y). x \<noteq> y) (zip xs ys))"

definition differing_nibbles :: "string \<Rightarrow> string \<Rightarrow> (char \<times> char) list" where
  "differing_nibbles a b = filter (\<lambda>(x, y). parseInt16 x \<noteq> parseInt16 y) (zip a b)"

definition nibble_popcount :: "nat \<Rightarrow> nat" where
  "nibble_popcount n = length (filter (\<lambda>b. b) (nibble_bits n))"

definition nibble_distance :: "char \<Rightarrow> char \<Rightarrow> nat" where
  "nibble_distance x y = nibble_popcount (toInt32 (parseInt16 x) XOR toInt32 (parseInt16 y))"

text \<open>The all-zero value of a 64-digit fingerprint, as the generator spells it out.\<close>

definition zeroHash :: string where
  "zeroHash = ''0000000000000000000000000000000000000000000000000000000000000000''"

section \<open>The imaging libraries\<close>

text \<open>
  The image module calls the libraries \<open>sharp\<close> and \<open>image-hash\<close>, which are not part of
  the repository. They are parameters of the model: a record of functions over a type
  \<open>'img\<close> of image buffers, each returning \<open>None\<close> when the library call throws.
  \<^item> \<open>sharp_normalize\<close>: \<open>sharp(buf).rotate().resize(512, 512, ...).jpeg({quality: 90}).toBuffer()\<close>;
  \<^item> \<open>image_hash\<close>: writing a buffer to a temporary file and \<open>imageHashAsync(path, 16, 'hex')\<close>;
  \<^item> \<open>sharp_rotate\<close>: \<open>sharp(buf).rotate(angle, {background: white})\<close>;
  \<^item> \<open>sharp_scale\<close>: \<open>sharp(buf).resize(Math.round(512 * scale), ...)\<close>;
  \<^item> \<open>fallback_digest\<close>: the SHA-256 digest of the metadata and channel statistics of a
    buffer, in hexadecimal, cut to 64 characters;
  \<^item> \<open>color_histogram\<close> and \<open>edge_hash\<close>: the raw-pixel computations of
    \<open>generateColorHistogram\<close> and \<open>generateEdgeHash\<close>.
  The error \<open>UnsupportedImage\<close> stands for whatever error such a call throws.
\<close>

record 'img imaging =
  sharp_normalize :: "'img \<Rightarrow> 'img option"
  image_hash :: "'img \<Rightarrow> string option"
  sharp_rotate :: "nat \<Rightarrow> 'img \<Rightarrow> 'img option"
  sharp_scale :: "real \<Rightarrow> 'img \<Rightarrow> 'img option"
  fallback_digest :: "'img \<Rightarrow> string option"
  color_histogram :: "'img \<Rightarrow> (nat list \<times> nat list \<times> nat list) option"
  edge_hash :: "'img \<Rightarrow> string option"

section \<open>ImageProcessor: the fingerprint bundle\<close>

datatype variant_type = Original | Rotated nat | Scaled real

text \<open>An entry \<open>{type, hash}\<close> of the list \<open>hashes\<close>.\<close>

record variant =
  vtype :: variant_type
  vhash :: string

text \<open>The object \<open>{primary, variants}\<close> that \<open>generateRobustPHashFromBuffer\<close> returns.\<close>

record hash_data =
  primary :: string
  variants :: "variant list"

definition rotations :: "nat list" where
  "rotations = [15, 30, 45, 90, 135, 180, 225, 270, 315, 345]"

definition scales :: "real list" where
  "scales = [0.9, 1.1]"

text \<open>
  The two loops that push the variant hashes. Neither has a handler of its own: a call
  that throws leaves the loop and the function.
\<close>

fun rotation_loop ::
  "'img imaging \<Rightarrow> 'img \<Rightarrow> nat list \<Rightarrow> variant list \<Rightarrow> error + variant list" where
  "rotation_loop env normalizedBuffer [] hashes = Inr hashes"
| "rotation_loop env normalizedBuffer (rotation # rest) hashes =
     (case sharp_rotate env rotation normalizedBuffer of
        None \<Rightarrow> Inl UnsupportedImage
      | Some rotated \<Rightarrow>
          (case image_hash env rotated of
             None \<Rightarrow> Inl UnsupportedImage
           | Some rotatedHash \<Rightarrow>
               rotation_loop env normalizedBuffer rest
                 (hashes @ [\<lparr>vtype = Rotated rotation, vhash = rotatedHash\<rparr>])))"

fun scale_loop ::
  "'img imaging \<Rightarrow> 'img \<Rightarrow> real list \<Rightarrow> variant list \<Rightarrow> error + variant list" where
  "scale_loop env normalizedBuffer [] hashes = Inr hashes"
| "scale_loop env normalizedBuffer (scale # rest) hashes =
     (case sharp_scale env scale normalizedBuffer of
        None \<Rightarrow> Inl UnsupportedImage
      | Some scaled \<Rightarrow>
          (case image_hash env scaled of
             None \<Rightarrow> Inl UnsupportedImage
           | Some scaledHash \<Rightarrow>
               scale_loop env normalizedBuffer rest
                 (hashes @ [\<lparr>vtype = Scaled scale, vhash = scaledHash\<rparr>])))"

text \<open>
  \<open>generateRobustPHashFromBuffer\<close>. Its \<open>catch\<close> logs and rethrows, so every failure
  is a failure of the call. Removing the temporary files has no effect on the result.
\<close>

definition generateRobustPHashFromBuffer :: "'img imaging \<Rightarrow> 'img \<Rightarrow> error + hash_data" where
  "generateRobustPHashFromBuffer env imageBuffer =
     (case sharp_normalize env imageBuffer of
        None \<Rightarrow> Inl UnsupportedImage
      | Some normalizedBuffer \<Rightarrow>
          (case image_hash env normalizedBuffer of
             None \<Rightarrow> Inl UnsupportedImage
           | Some originalHash \<Rightarrow>
               (case rotation_loop env normalizedBuffer rotations
                       [\<lparr>vtype = Original, vhash = originalHash\<rparr>] of
                  Inl e \<Rightarrow> Inl e
                | Inr hashes1 \<Rightarrow>
                    (case scale_loop env normalizedBuffer scales hashes1 of
                       Inl e \<Rightarrow> Inl e
                     | Inr hashes \<Rightarrow>
                         (let primaryHash = originalHash in
                          if primaryHash = zeroHash then
                            (case fallback_digest env normalizedBuffer of
                               None \<Rightarrow> Inl UnsupportedImage
                             | Some fallbackHash \<Rightarrow>
                                 Inr \<lparr>primary = fallbackHash, variants = hashes\<rparr>)
                          else Inr \<lparr>primary = primaryHash, variants = hashes\<rparr>)))))"

section \<open>ImageProcessor.findBestMatch\<close>

text \<open>The object \<open>{objectId, distance, hash}\<close> held in \<open>bestMatch\<close>.\<close>

record match =
  objectId :: string
  distance :: nat
  hash :: string

text \<open>
  The calls of \<open>hammingDistance\<close> that \<open>findBestMatch\<close> makes, in the order it makes
  them: the new hash first, the stored hash second.
\<close>

datatype comparison = PrimaryComparison string string | VariantComparison string string

text \<open>
  The local variables of the search, \<open>bestDistance\<close> starting at \<open>Infinity\<close>, together
  with the comparisons made so far.
\<close>

record search =
  bestMatch :: "match option"
  bestDistance :: enat
  comparisons :: "comparison list"

text \<open>
  The inner loop over \<open>newHashes.slice(1)\<close>. Its body is a \<open>try\<close> whose handler logs
  the failure and goes on with the next variant.
\<close>

fun variant_loop :: "int \<Rightarrow> string \<Rightarrow> string \<Rightarrow> string list \<Rightarrow> search \<Rightarrow> search" where
  "variant_loop threshold existingHash oid [] st = st"
| "variant_loop threshold existingHash oid (newHash # rest) st =
     (let st1 = st\<lparr>comparisons := comparisons st @ [VariantComparison newHash existingHash]\<rparr> in
      case hammingDistance newHash existingHash of
        Inl e \<Rightarrow> variant_loop threshold existingHash oid rest st1
      | Inr d \<Rightarrow>
          variant_loop threshold existingHash oid rest
            (if enat d < bestDistance st1 \<and> int d \<le> threshold
             then st1\<lparr>bestDistance := enat d,
                      bestMatch := Some \<lparr>objectId = oid, distance = d, hash = existingHash\<rparr>\<rparr>
             else st1))"

text \<open>
  The loop over \<open>hashToObjectMap.entries()\<close>; the map is the list of its entries in
  insertion order. A primary comparison that throws leaves the loop: the first component
  of the result is the error then.
\<close>

fun entries_loop ::
  "hash_data \<Rightarrow> string list \<Rightarrow> int \<Rightarrow> (string \<times> string) list \<Rightarrow> search \<Rightarrow> error option \<times> search" where
  "entries_loop newHashData newHashes threshold [] st = (None, st)"
| "entries_loop newHashData newHashes threshold ((existingHash, oid) # rest) st =
     (let st0 = st\<lparr>comparisons :=
                   comparisons st @ [PrimaryComparison (primary newHashData) existingHash]\<rparr> in
      case hammingDistance (primary newHashData) existingHash of
        Inl e \<Rightarrow> (Some e, st0)
      | Inr primaryDistance \<Rightarrow>
          (let st1 = (if int primaryDistance \<le> threshold \<and> enat primaryDistance < bestDistance st0
                      then st0\<lparr>bestDistance := enat primaryDistance,
                               bestMatch := Some \<lparr>objectId = oid, distance = primaryDistance,
                                                  hash = existingHash\<rparr>\<rparr>
                      else st0);
               st2 = (if int primaryDistance > threshold \<and> threshold \<le> 3
                      then variant_loop threshold existingHash oid (drop 1 newHashes) st1
                      else st1)
           in entries_loop newHashData newHashes threshold rest st2))"

text \<open>The body of \<open>findBestMatch\<close> once the bundle of the new image is there.\<close>

definition search_entries ::
  "hash_data \<Rightarrow> (string \<times> string) list \<Rightarrow> int \<Rightarrow> error option \<times> search" where
  "search_entries newHashData hashToObjectMap threshold =
     (let newHashes = primary newHashData # map vhash (variants newHashData) in
      entries_loop newHashData newHashes threshold hashToObjectMap
        \<lparr>bestMatch = None, bestDistance = \<infinity>, comparisons = []\<rparr>)"

text \<open>
  \<open>findBestMatch\<close>: the comparisons made, and \<open>bestMatch\<close> or \<open>null\<close>. The outer handler
  turns every error into \<open>null\<close>.
\<close>

definition findBestMatch ::
  "'img imaging \<Rightarrow> 'img \<Rightarrow> (string \<times> string) list \<Rightarrow> int \<Rightarrow> comparison list \<times> match option" where
  "findBestMatch env newImageBuffer hashToObjectMap threshold =
     (case generateRobustPHashFromBuffer env newImageBuffer of
        Inl e \<Rightarrow> ([], None)
      | Inr newHashData \<Rightarrow>
          (case search_entries newHashData hashToObjectMap threshold of
             (Some e, st) \<Rightarrow> (comparisons st, None)
           | (None, st) \<Rightarrow> (comparisons st, bestMatch st)))"

section \<open>AdvancedImageMatcher.verifyImageMatch\<close>

text \<open>
  The report \<open>results\<close>. All five entries carry \<open>matched\<close> and \<open>confidence\<close>; the two
  hash stages add a distance, the colour and edge stages a similarity, and \<open>overall\<close>
  adds the field \<open>method\<close>, here \<open>matching_method\<close>.
\<close>

record stage =
  matched :: bool
  confidence :: real

record phash_stage = stage +
  stage_distance :: enat

record aux_stage = stage +
  similarity :: real

record overall_stage = stage +
  matching_method :: string

record results =
  stage1_phash :: phash_stage
  stage2_rotation :: phash_stage
  stage3_color :: aux_stage
  stage4_edge :: aux_stage
  overall :: overall_stage

definition initial_results :: results where
  "initial_results =
     \<lparr>stage1_phash = \<lparr>matched = False, confidence = 0, stage_distance = \<infinity>\<rparr>,
      stage2_rotation = \<lparr>matched = False, confidence = 0, stage_distance = \<infinity>\<rparr>,
      stage3_color = \<lparr>matched = False, confidence = 0, similarity = 1\<rparr>,
      stage4_edge = \<lparr>matched = False, confidence = 0, similarity = 1\<rparr>,
      overall = \<lparr>matched = False, confidence = 0, matching_method = ''none''\<rparr>\<rparr>"

definition rotationAngles :: "nat list" where
  "rotationAngles = [5, 10, 15, 30, 45, 90, 180, 270, 345, 350, 355]"

text \<open>The library calls that one run of the verifier makes, in order.\<close>

datatype img_op = OpNormalize | OpImageHash | OpRotate nat | OpColorHistogram | OpEdgeHash

text \<open>
  A loop either reaches \<open>return results\<close> or falls through to the code after it. The
  handler of \<open>verifyImageMatch\<close> is \<open>return results\<close> as well, so a call that throws
  returns the report as it stands.
\<close>

datatype 'a flow = Return 'a | Next 'a

fun stage1_loop :: "string \<Rightarrow> string list \<Rightarrow> results \<Rightarrow> results flow" where
  "stage1_loop inputHash [] r = Next r"
| "stage1_loop inputHash (storedHash # rest) r =
     (let d = hammingDistance_adv inputHash storedHash in
      if d \<le> 3 then
        Return (r\<lparr>stage1_phash := \<lparr>matched = True, confidence = 0.95, stage_distance = d\<rparr>,
                  overall := \<lparr>matched = True, confidence = 0.95, matching_method = ''direct_phash''\<rparr>\<rparr>)
      else
        stage1_loop inputHash rest
          (r\<lparr>stage1_phash :=
               (stage1_phash r)\<lparr>stage_distance := min (stage_distance (stage1_phash r)) d\<rparr>\<rparr>))"

fun stage2_scan :: "string \<Rightarrow> string list \<Rightarrow> results \<Rightarrow> results flow" where
  "stage2_scan rotatedHash [] r = Next r"
| "stage2_scan rotatedHash (storedHash # rest) r =
     (let d = hammingDistance_adv rotatedHash storedHash in
      if d \<le> 8 then
        Return (r\<lparr>stage2_rotation := \<lparr>matched = True, confidence = 0.85, stage_distance = d\<rparr>,
                  overall := \<lparr>matched = True, confidence = 0.85, matching_method = ''rotation_phash''\<rparr>\<rparr>)
      else
        stage2_scan rotatedHash rest
          (r\<lparr>stage2_rotation :=
               (stage2_rotation r)\<lparr>stage_distance := min (stage_distance (stage2_rotation r)) d\<rparr>\<rparr>))"

fun stage2_loop ::
  "'img imaging \<Rightarrow> 'img \<Rightarrow> string list \<Rightarrow> nat list \<Rightarrow> img_op list \<times> results
     \<Rightarrow> (img_op list \<times> results) flow" where
  "stage2_loop env normalizedBuffer storedHashes [] (ops, r) = Next (ops, r)"
| "stage2_loop env normalizedBuffer storedHashes (angle # rest) (ops, r) =
     (case sharp_rotate env angle normalizedBuffer of
        None \<Rightarrow> Return (ops @ [OpRotate angle], r)
      | Some rotatedBuffer \<Rightarrow>
          (case image_hash env rotatedBuffer of
             None \<Rightarrow> Return (ops @ [OpRotate angle, OpImageHash], r)
           | Some rotatedHash \<Rightarrow>
               (case stage2_scan rotatedHash storedHashes r of
                  Return r' \<Rightarrow> Return (ops @ [OpRotate angle, OpImageHash], r')
                | Next r' \<Rightarrow>
                    stage2_loop env normalizedBuffer storedHashes rest
                      (ops @ [OpRotate angle, OpImageHash], r'))))"

text \<open>
  \<open>generateColorHistogram\<close> and \<open>generateEdgeHash\<close> catch their own errors and return
  \<open>null\<close>.
\<close>

definition generateColorHistogram ::
  "'img imaging \<Rightarrow> 'img \<Rightarrow> (nat list \<times> nat list \<times> nat list) option" where
  "generateColorHistogram env imageBuffer = color_histogram env imageBuffer"

definition generateEdgeHash :: "'img imaging \<Rightarrow> 'img \<Rightarrow> string option" where
  "generateEdgeHash env imageBuffer = edge_hash env imageBuffer"

text \<open>
  \<open>verifyImageMatch\<close>: the library calls made and the report returned. Stages 3 and 4
  compute the histogram and the edge hash of the input and compare them with nothing.
\<close>

definition verifyImageMatch ::
  "'img imaging \<Rightarrow> 'img \<Rightarrow> string list \<Rightarrow> img_op list \<times> results" where
  "verifyImageMatch env imageBuffer storedHashes =
     (case sharp_normalize env imageBuffer of
        None \<Rightarrow> ([OpNormalize], initial_results)
      | Some normalizedBuffer \<Rightarrow>
          (case image_hash env normalizedBuffer of
             None \<Rightarrow> ([OpNormalize, OpImageHash], initial_results)
           | Some inputHash \<Rightarrow>
               (case stage1_loop inputHash storedHashes initial_results of
                  Return r \<Rightarrow> ([OpNormalize, OpImageHash], r)
                | Next r \<Rightarrow>
                    (case stage2_loop env normalizedBuffer storedHashes rotationAngles
                            ([OpNormalize, OpImageHash], r) of
                       Return res \<Rightarrow> res
                     | Next (ops, r') \<Rightarrow>
                         (let inputHistogram = generateColorHistogram env normalizedBuffer;
                              inputEdgeHash = generateEdgeHash env normalizedBuffer
                          in (ops @ [OpColorHistogram, OpEdgeHash], r'))))))"

section \<open>The handler of \<open>/api/verify\<close>\<close>

text \<open>
  The handler up to its test of \<open>matchResults.overall.matched\<close>: the keys of
  \<open>hashDatabase\<close> are the stored hashes, and an empty database is answered before the
  verifier is called. With a positive report the handler goes on to look the object up,
  which is not part of this model: the report is returned as it is.
\<close>

record reply =
  verified :: bool
  message :: string

definition api_verify ::
  "'img imaging \<Rightarrow> 'img \<Rightarrow> (string \<times> string) list \<Rightarrow> img_op list \<times> (reply + results)" where
  "api_verify env imageBuffer hashDatabase =
     (let storedHashes = map fst hashDatabase in
      if length storedHashes = 0 then
        ([], Inl \<lparr>verified = False, message = ''No objects in database to compare against''\<rparr>)
      else
        (case verifyImageMatch env imageBuffer storedHashes of
           (ops, matchResults) \<Rightarrow>
             if \<not> matched (overall matchResults) then
               (ops, Inl \<lparr>verified = False, message = ''No matching object found''\<rparr>)
             else (ops, Inr matchResults)))"

section \<open>Sample inputs\<close>

text \<open>
  A laboratory instance of the libraries, over images named by numbers: image 0 cannot be
  decoded, rotating image \<open>i\<close> by \<open>angle\<close> gives image \<open>i + angle\<close>, scaling leaves the
  image as it is, and the hash of each image and the fallback digest are given.
\<close>

definition lab_env :: "(nat \<Rightarrow> string option) \<Rightarrow> string \<Rightarrow> nat imaging" where
  "lab_env hashes digest =
     \<lparr>sharp_normalize = (\<lambda>i. if i = 0 then None else Some i),
      image_hash = hashes,
      sharp_rotate = (\<lambda>angle i. Some (i + angle)),
      sharp_scale = (\<lambda>scale i. Some i),
      fallback_digest = (\<lambda>i. Some digest),
      color_histogram = (\<lambda>i. None),
      edge_hash = (\<lambda>i. None)\<rparr>"

text \<open>
  Fingerprints that differ from \<open>zeroHash\<close> in their first digits only:
  \<open>with_prefix p s\<close> is \<open>s\<close> with its first digits replaced by \<open>p\<close>.
\<close>

definition with_prefix :: "string \<Rightarrow> string \<Rightarrow> string" where
  "with_prefix p s = p @ drop (length p) s"

definition hashB :: string where
  "hashB = with_prefix ''3'' zeroHash"

definition hashC :: string where
  "hashC = with_prefix ''f'' zeroHash"

definition hashD :: string where
  "hashD = with_prefix ''fff'' zeroHash"

definition hashF :: string where
  "hashF = with_prefix ''8'' zeroHash"

text \<open>Every image hashes to \<open>h\<close>, except image \<open>j\<close>, which hashes to \<open>h'\<close>.\<close>

definition hashes_but :: "string \<Rightarrow> nat \<Rightarrow> string option \<Rightarrow> nat \<Rightarrow> string option" where
  "hashes_but h j h' = (\<lambda>i. if i = j then h' else Some h)"

text \<open>The bundle of an image all of whose variants hash to \<open>hashB\<close>.\<close>

definition bundleB :: hash_data where
  "bundleB =
     \<lparr>primary = hashB,
      variants = \<lparr>vtype = Original, vhash = hashB\<rparr>
                 # map (\<lambda>r. \<lparr>vtype = Rotated r, vhash = hashB\<rparr>) rotations
                 @ map (\<lambda>s. \<lparr>vtype = Scaled s, vhash = hashB\<rparr>) scales\<rparr>"


section \<open>Failing variants\<close>

text \<open>
  The generation of the variant for one rotation or one scale fails when the transform
  throws or when the transformed image cannot be hashed.
\<close>

definition rotation_fails :: "'img imaging \<Rightarrow> 'img \<Rightarrow> nat \<Rightarrow> bool" where
  "rotation_fails env normalizedBuffer rotation =
     (case sharp_rotate env rotation normalizedBuffer of
        None \<Rightarrow> True
      | Some rotated \<Rightarrow> image_hash env rotated = None)"

definition scale_fails :: "'img imaging \<Rightarrow> 'img \<Rightarrow> real \<Rightarrow> bool" where
  "scale_fails env normalizedBuffer scale =
     (case sharp_scale env scale normalizedBuffer of
        None \<Rightarrow> True
      | Some scaled \<Rightarrow> image_hash env scaled = None)"

section \<open>The specification's best match\<close>

text \<open>
  What the specification asks of the result \<open>bm\<close> of a search for \<open>p\<close> among the entries
  \<open>seen\<close>: it is the entry whose distance from \<open>p\<close> is at most the threshold and smallest,
  the earliest one among equals, and it is absent when no entry is within the threshold.
\<close>

definition best_admissible ::
  "string \<Rightarrow> int \<Rightarrow> (string \<times> string) list \<Rightarrow> match option \<Rightarrow> bool" where
  "best_admissible p t seen bm =
     (case bm of
        None \<Rightarrow> (\<forall>(h, oid) \<in> set seen. \<forall>k. hammingDistance p h = Inr k \<longrightarrow> t < int k)
      | Some m \<Rightarrow>
          (\<exists>pre post. seen = pre @ (hash m, objectId m) # post
             \<and> hammingDistance p (hash m) = Inr (distance m) \<and> int (distance m) \<le> t
             \<and> (\<forall>(h, oid) \<in> set pre. \<forall>k. hammingDistance p h = Inr k \<and> int k \<le> t
                    \<longrightarrow> distance m < k)
             \<and> (\<forall>(h, oid) \<in> set post. \<forall>k. hammingDistance p h = Inr k \<and> int k \<le> t
                    \<longrightarrow> distance m \<le> k)))"

text \<open>
  No variant fingerprint in \<open>vs\<close> is within the threshold of a stored fingerprint that the
  primary comparison with \<open>p\<close> did not admit.
\<close>

definition no_variant_hit ::
  "string \<Rightarrow> string list \<Rightarrow> int \<Rightarrow> (string \<times> string) list \<Rightarrow> bool" where
  "no_variant_hit p vs t store =
     (\<forall>(h, oid) \<in> set store. \<forall>v \<in> set vs. \<forall>j k.
         hammingDistance p h = Inr j \<and> t < int j \<and> hammingDistance v h = Inr k \<longrightarrow> t < int k)"

section \<open>Properties of the distance functions\<close>

lemma countSetBits_unfold: "countSetBits n = (if n = 0 then 0 else n mod 2 + countSetBits (n div 2))"
  by (subst countSetBits.simps) (simp add: drop_bit_eq_div and_one_eq)

lemma length_split_at: "length (split_at c s) = Suc (length (filter (\<lambda>x. x = c) s))"
  by (induction s) (auto split: list.splits)

lemma ones_toString2: "length (filter (\<lambda>x. x = CHR ''1'') (toString2 n)) = countSetBits n"
proof (induction n rule: toString2.induct)
  case (1 n)
  show ?case
  proof (cases "n < 2")
    case True
    then have "n = 0 \<or> n = 1" by arith
    then show ?thesis
      by (auto simp: toString2.simps[of 0] toString2.simps[of "Suc 0"]
          countSetBits_unfold[of 0] countSetBits_unfold[of "Suc 0"])
  next
    case False
    with 1 show ?thesis
      by (subst toString2.simps, subst countSetBits_unfold) auto
  qed
qed

lemma split_count: "length (split_at CHR ''1'' (toString2 n)) - 1 = countSetBits n"
  by (simp add: length_split_at ones_toString2)

lemma fold_add: "fold (\<lambda>i d. d + f i) xs (a::nat) = a + sum_list (map f xs)"
  by (induction xs arbitrary: a) auto

lemma map_index_zip:
  "length a = length b \<Longrightarrow> map (\<lambda>i. g (a ! i) (b ! i)) [0..<length a] = map (\<lambda>(x, y). g x y) (zip a b)"
  by (rule nth_equalityI) auto

lemma parseInt16_less: "toInt32 (parseInt16 c) < 16"
  by (auto simp: parseInt16_def toInt32_def Let_def)

lemma xor_less16: "x < 16 \<Longrightarrow> y < 16 \<Longrightarrow> x XOR y < (16::nat)"
proof -
  assume a: "x < 16" "y < 16"
  have "drop_bit 4 (x XOR y) = drop_bit 4 x XOR drop_bit 4 y"
    by (simp add: bit_eq_iff bit_simps)
  with a have "drop_bit 4 (x XOR y) = 0" by (simp add: drop_bit_eq_div)
  then show ?thesis by (simp add: drop_bit_eq_div div_eq_0_iff)
qed

lemma nibble_bits_xor:
  "nibble_bits (x XOR y) = map (\<lambda>(p, q). p \<noteq> q) (zip (nibble_bits x) (nibble_bits y))"
proof -
  have "\<And>k. odd ((x XOR y) div 2 ^ k) \<longleftrightarrow> (odd (x div 2 ^ k) \<noteq> odd (y div 2 ^ k))"
    using bit_xor_iff[of x y] by (simp add: bit_iff_odd)
  from this[of 0] this[of 1] this[of 2] this[of 3] show ?thesis
    by (simp add: nibble_bits_def)
qed

lemma count16: "\<forall>n<16. countSetBits n = nibble_popcount n"
  by code_simp

lemma differing_as_filter:
  "differing_bits xs ys = length (filter (\<lambda>b. b) (map (\<lambda>(p, q). p \<noteq> q) (zip xs ys)))"
  by (simp add: differing_bits_def filter_map comp_def case_prod_unfold)

lemma nibble_table:
  assumes "x < 16" and "y < 16"
  shows "countSetBits (x XOR y) = differing_bits (nibble_bits x) (nibble_bits y)
      \<and> countSetBits (x XOR y) = nibble_popcount (x XOR y)"
proof -
  have "countSetBits (x XOR y) = nibble_popcount (x XOR y)"
    using count16 xor_less16[OF assms] by blast
  moreover have "differing_bits (nibble_bits x) (nibble_bits y) = nibble_popcount (x XOR y)"
    by (simp only: differing_as_filter nibble_bits_xor[symmetric] nibble_popcount_def)
  ultimately show ?thesis by simp
qed
lemma countSetBits_nibble:
  "countSetBits (jsXor (parseInt16 x) (parseInt16 y)) = differing_bits (hex_bits [x]) (hex_bits [y])"
  using nibble_table[OF parseInt16_less[of x] parseInt16_less[of y]]
  by (simp add: jsXor_def hex_bits_def)

lemma countSetBits_popcount:
  "countSetBits (jsXor (parseInt16 x) (parseInt16 y)) = nibble_distance x y"
  using nibble_table[OF parseInt16_less[of x] parseInt16_less[of y]]
  by (simp add: jsXor_def nibble_distance_def)

lemma differing_bits_append:
  "length xs = length ys \<Longrightarrow>
   differing_bits (xs @ us) (ys @ vs) = differing_bits xs ys + differing_bits us vs"
  by (simp add: differing_bits_def)

lemma hex_bits_Cons: "hex_bits (c # s) = hex_bits [c] @ hex_bits s"
  by (simp add: hex_bits_def)

lemma length_hex_bits: "length (hex_bits s) = 4 * length s"
  by (induction s) (auto simp: hex_bits_def nibble_bits_def)

lemma differing_bits_hex:
  "length a = length b \<Longrightarrow>
   differing_bits (hex_bits a) (hex_bits b)
     = sum_list (map (\<lambda>(x, y). differing_bits (hex_bits [x]) (hex_bits [y])) (zip a b))"
proof (induction a b rule: list_induct2)
  case Nil
  then show ?case by (simp add: hex_bits_def differing_bits_def)
next
  case (Cons x xs y ys)
  have "differing_bits (hex_bits (x # xs)) (hex_bits (y # ys))
      = differing_bits (hex_bits [x]) (hex_bits [y]) + differing_bits (hex_bits xs) (hex_bits ys)"
    by (subst hex_bits_Cons, subst (2) hex_bits_Cons, rule differing_bits_append)
       (simp add: length_hex_bits)
  with Cons show ?case by simp
qed

lemma hammingDistance_sum:
  "length a = length b \<Longrightarrow>
   hammingDistance a b
     = Inr (sum_list (map (\<lambda>(x, y). countSetBits (jsXor (parseInt16 x) (parseInt16 y))) (zip a b)))"
  using map_index_zip[of a b "\<lambda>x y. countSetBits (jsXor (parseInt16 x) (parseInt16 y))"]
  by (simp only: hammingDistance_def fold_add if_False not_not add_0 simp_thms)

lemma hammingDistance_adv_sum:
  "length a = length b \<Longrightarrow>
   hammingDistance_adv a b
     = enat (sum_list (map (\<lambda>(x, y). countSetBits (jsXor (parseInt16 x) (parseInt16 y))) (zip a b)))"
  using map_index_zip[of a b "\<lambda>x y. countSetBits (jsXor (parseInt16 x) (parseInt16 y))"]
  by (simp only: hammingDistance_adv_def fold_add split_count if_False not_not add_0 simp_thms)

lemma hammingDistance_bits:
  "length a = length b \<Longrightarrow> hammingDistance a b = Inr (differing_bits (hex_bits a) (hex_bits b))"
  using differing_bits_hex[of a b] by (simp add: hammingDistance_sum countSetBits_nibble)

lemma hammingDistance_adv_bits:
  "length a = length b \<Longrightarrow> hammingDistance_adv a b = enat (differing_bits (hex_bits a) (hex_bits b))"
  using differing_bits_hex[of a b] by (simp add: hammingDistance_adv_sum countSetBits_nibble)

lemma differing_bits_sym: "differing_bits xs ys = differing_bits ys xs"
proof (induction xs arbitrary: ys)
  case Nil
  then show ?case by (simp add: differing_bits_def)
next
  case (Cons x xs)
  then show ?case by (cases ys) (auto simp: differing_bits_def)
qed

lemma differing_bits_zero:
  "length xs = length ys \<Longrightarrow> differing_bits xs ys = 0 \<longleftrightarrow> xs = ys"
  by (induction xs ys rule: list_induct2) (auto simp: differing_bits_def)

lemma differing_bits_le: "differing_bits xs ys \<le> length xs"
proof -
  have "differing_bits xs ys \<le> length (zip xs ys)"
    unfolding differing_bits_def by (rule length_filter_le)
  then show ?thesis by simp
qed

lemma sum_list_ones:
  fixes f :: "'a \<Rightarrow> nat"
  assumes "\<And>p. \<not> Q p \<Longrightarrow> f p = 0" and "list_all (\<lambda>p. f p = 1) (filter Q ps)"
  shows "sum_list (map f ps) = length (filter Q ps)"
  using assms(2) by (induction ps) (auto simp: assms(1))

lemma same_nibble_zero:
  "parseInt16 x = parseInt16 y \<Longrightarrow> differing_bits (hex_bits [x]) (hex_bits [y]) = 0"
  using differing_bits_zero[of "hex_bits [x]" "hex_bits [y]"] by (simp add: hex_bits_def)

lemma sum_list_differing:
  assumes "list_all (\<lambda>(x, y). differing_bits (hex_bits [x]) (hex_bits [y]) = 1) (differing_nibbles a b)"
  shows "sum_list (map (\<lambda>(x, y). differing_bits (hex_bits [x]) (hex_bits [y])) (zip a b))
     = length (differing_nibbles a b)"
proof -
  let ?f = "\<lambda>p. differing_bits (hex_bits [fst p]) (hex_bits [snd p])"
  let ?Q = "\<lambda>p. parseInt16 (fst p) \<noteq> parseInt16 (snd p)"
  have zero: "\<And>p. \<not> ?Q p \<Longrightarrow> ?f p = 0"
    by (simp add: same_nibble_zero)
  have ones: "list_all (\<lambda>p. ?f p = 1) (filter ?Q (zip a b))"
    using assms by (simp add: differing_nibbles_def case_prod_unfold)
  have "sum_list (map ?f (zip a b)) = length (filter ?Q (zip a b))"
    using zero ones by (rule sum_list_ones)
  then show ?thesis by (simp add: differing_nibbles_def case_prod_unfold)
qed

text \<open>
  Claim C4. For fingerprints \<open>a\<close> and \<open>b\<close> of equal length, both distance functions
  return the number of differing bit positions, which is the sum over the hexadecimal
  digits of the population count of the digit-wise XOR. The distance is symmetric, it is
  zero exactly when the two bit vectors are identical, and it is at most four times the
  number of hexadecimal digits. Two fingerprints of 64 digits that differ in exactly five
  digits, by one bit in each, are at distance 5.
\<close>

theorem hammingDistance_counts_differing_bits:
  assumes "is_hex a" and "is_hex b" and "length a = length b"
  shows "hammingDistance a b = Inr (differing_bits (hex_bits a) (hex_bits b))
       \<and> hammingDistance_adv a b = enat (differing_bits (hex_bits a) (hex_bits b))
       \<and> differing_bits (hex_bits a) (hex_bits b)
           = sum_list (map (\<lambda>(x, y). nibble_distance x y) (zip a b))
       \<and> hammingDistance a b = hammingDistance b a
       \<and> hammingDistance_adv a b = hammingDistance_adv b a
       \<and> (hammingDistance a b = Inr 0 \<longleftrightarrow> hex_bits a = hex_bits b)
       \<and> (hammingDistance_adv a b = 0 \<longleftrightarrow> hex_bits a = hex_bits b)
       \<and> differing_bits (hex_bits a) (hex_bits b) \<le> 4 * length a
       \<and> (length a = 64 \<and> length (differing_nibbles a b) = 5
            \<and> list_all (\<lambda>(x, y). differing_bits (hex_bits [x]) (hex_bits [y]) = 1)
                  (differing_nibbles a b)
          \<longrightarrow> hammingDistance a b = Inr 5 \<and> hammingDistance_adv a b = 5)"
proof -
  let ?d = "differing_bits (hex_bits a) (hex_bits b)"
  have len: "length (hex_bits a) = length (hex_bits b)"
    using assms(3) by (simp add: length_hex_bits)
  have d1: "hammingDistance a b = Inr ?d"
    using assms(3) by (rule hammingDistance_bits)
  have d2: "hammingDistance_adv a b = enat ?d"
    using assms(3) by (rule hammingDistance_adv_bits)
  have s: "?d = sum_list (map (\<lambda>(x, y). nibble_distance x y) (zip a b))"
    using differing_bits_hex[OF assms(3)]
    by (simp add: countSetBits_nibble[symmetric] countSetBits_popcount)
  have sym1: "hammingDistance a b = hammingDistance b a"
    using assms(3) hammingDistance_bits[of b a] differing_bits_sym[of "hex_bits a" "hex_bits b"]
    by (simp add: d1)
  have sym2: "hammingDistance_adv a b = hammingDistance_adv b a"
    using assms(3) hammingDistance_adv_bits[of b a] differing_bits_sym[of "hex_bits a" "hex_bits b"]
    by (simp add: d2)
  have z: "?d = 0 \<longleftrightarrow> hex_bits a = hex_bits b"
    using len by (rule differing_bits_zero)
  have z1: "hammingDistance a b = Inr 0 \<longleftrightarrow> hex_bits a = hex_bits b"
    using z by (simp add: d1)
  have z2: "hammingDistance_adv a b = 0 \<longleftrightarrow> hex_bits a = hex_bits b"
    using z by (simp add: d2 zero_enat_def)
  have b: "?d \<le> 4 * length a"
    using differing_bits_le[of "hex_bits a" "hex_bits b"] by (simp add: length_hex_bits)
  have five: "length a = 64 \<and> length (differing_nibbles a b) = 5
            \<and> list_all (\<lambda>(x, y). differing_bits (hex_bits [x]) (hex_bits [y]) = 1)
                  (differing_nibbles a b)
          \<longrightarrow> hammingDistance a b = Inr 5 \<and> hammingDistance_adv a b = 5"
  proof
    assume h: "length a = 64 \<and> length (differing_nibbles a b) = 5
            \<and> list_all (\<lambda>(x, y). differing_bits (hex_bits [x]) (hex_bits [y]) = 1)
                  (differing_nibbles a b)"
    then have "?d = 5"
      using differing_bits_hex[OF assms(3)] sum_list_differing[of a b] by simp
    then show "hammingDistance a b = Inr 5 \<and> hammingDistance_adv a b = 5"
      by (simp add: d1 d2 numeral_eq_enat)
  qed
  from d1 d2 s sym1 sym2 z1 z2 b five show ?thesis by blast
qed

theorem hammingDistance_counts_differing_bits_witness:
  "is_hex zeroHash
   \<and> is_hex ''1000000000200000000040000000008000000000100000000000000000000000''
   \<and> length zeroHash
       = length ''1000000000200000000040000000008000000000100000000000000000000000''
   \<and> hammingDistance zeroHash
         ''1000000000200000000040000000008000000000100000000000000000000000'' = Inr 5
   \<and> hammingDistance_adv zeroHash
         ''1000000000200000000040000000008000000000100000000000000000000000'' = 5"
proof -
  let ?b = "''1000000000200000000040000000008000000000100000000000000000000000''"
  have h1: "is_hex zeroHash" by code_simp
  have h2: "is_hex ?b" by code_simp
  have h3: "length zeroHash = length ?b" by code_simp
  have h4: "length zeroHash = 64 \<and> length (differing_nibbles zeroHash ?b) = 5
            \<and> list_all (\<lambda>(x, y). differing_bits (hex_bits [x]) (hex_bits [y]) = 1)
                  (differing_nibbles zeroHash ?b)"
    by code_simp
  from hammingDistance_counts_differing_bits[OF h1 h2 h3] h4
  have "hammingDistance zeroHash ?b = Inr 5 \<and> hammingDistance_adv zeroHash ?b = 5"
    by blast
  with h1 h2 h3 show ?thesis by blast
qed

section \<open>The duplicate search\<close>

lemma variant_loop_comparisons:
  "comparisons (variant_loop t h oid vs st) = comparisons st @ map (\<lambda>v. VariantComparison v h) vs"
  by (induction vs arbitrary: st) (auto simp: Let_def split: sum.splits)

lemma variant_loop_best:
  "(bestMatch (variant_loop t h oid vs st) = bestMatch st
      \<and> bestDistance (variant_loop t h oid vs st) = bestDistance st)
   \<or> (\<exists>v\<in>set vs. \<exists>k. hammingDistance v h = Inr k \<and> int k \<le> t \<and> enat k < bestDistance st
        \<and> bestMatch (variant_loop t h oid vs st) = Some \<lparr>objectId = oid, distance = k, hash = h\<rparr>
        \<and> bestDistance (variant_loop t h oid vs st) = enat k)"
proof (induction vs arbitrary: st)
  case Nil
  then show ?case by simp
next
  case (Cons v vs)
  let ?st1 = "st\<lparr>comparisons := comparisons st @ [VariantComparison v h]\<rparr>"
  show ?case
  proof (cases "hammingDistance v h")
    case (Inl e)
    then show ?thesis using Cons.IH[of ?st1] by (auto simp: Let_def)
  next
    case (Inr k)
    show ?thesis
    proof (cases "enat k < bestDistance st \<and> int k \<le> t")
      case True
      let ?st2 = "?st1\<lparr>bestDistance := enat k,
                      bestMatch := Some \<lparr>objectId = oid, distance = k, hash = h\<rparr>\<rparr>"
      have eq: "variant_loop t h oid (v # vs) st = variant_loop t h oid vs ?st2"
        using Inr True by (simp add: Let_def)
      from Cons.IH[of ?st2] show ?thesis
      proof
        assume "bestMatch (variant_loop t h oid vs ?st2) = bestMatch ?st2
           \<and> bestDistance (variant_loop t h oid vs ?st2) = bestDistance ?st2"
        then show ?thesis using Inr True eq by auto
      next
        assume "\<exists>v\<in>set vs. \<exists>k. hammingDistance v h = Inr k \<and> int k \<le> t \<and> enat k < bestDistance ?st2
        \<and> bestMatch (variant_loop t h oid vs ?st2) = Some \<lparr>objectId = oid, distance = k, hash = h\<rparr>
        \<and> bestDistance (variant_loop t h oid vs ?st2) = enat k"
        then obtain w j where w: "w \<in> set vs" "hammingDistance w h = Inr j" "int j \<le> t"
          "enat j < bestDistance ?st2"
          "bestMatch (variant_loop t h oid vs ?st2) = Some \<lparr>objectId = oid, distance = j, hash = h\<rparr>"
          "bestDistance (variant_loop t h oid vs ?st2) = enat j"
          by blast
        moreover have "bestDistance ?st2 < bestDistance st" using True by simp
        ultimately have "enat j < bestDistance st" by (metis less_trans)
        with w show ?thesis unfolding eq by (intro disjI2 bexI[of _ w] exI[of _ j]) auto
      qed
    next
      case False
      have eq: "variant_loop t h oid (v # vs) st = variant_loop t h oid vs ?st1"
        using Inr False by (auto simp: Let_def)
      from Cons.IH[of ?st1] show ?thesis unfolding eq by auto
    qed
  qed
qed

lemma entries_loop_variant_comparisons:
  assumes "VariantComparison v h \<in> set (comparisons (snd (entries_loop d nh t store st)))"
    and "VariantComparison v h \<notin> set (comparisons st)"
  shows "t \<le> 3 \<and> v \<in> set (drop 1 nh)
       \<and> (\<exists>oid k. (h, oid) \<in> set store \<and> hammingDistance (primary d) h = Inr k \<and> int k > t)"
  using assms
proof (induction store arbitrary: st)
  case Nil
  then show ?case by simp
next
  case (Cons e store)
  obtain eh oid where e: "e = (eh, oid)" by (cases e)
  let ?st0 = "st\<lparr>comparisons := comparisons st @ [PrimaryComparison (primary d) eh]\<rparr>"
  show ?case
  proof (cases "hammingDistance (primary d) eh")
    case (Inl err)
    with Cons.prems e show ?thesis by (simp add: Let_def)
  next
    case (Inr k)
    let ?st1 = "(if int k \<le> t \<and> enat k < bestDistance ?st0
                      then ?st0\<lparr>bestDistance := enat k,
                               bestMatch := Some \<lparr>objectId = oid, distance = k, hash = eh\<rparr>\<rparr>
                      else ?st0)"
    let ?st2 = "(if int k > t \<and> t \<le> 3
                      then variant_loop t eh oid (drop 1 nh) ?st1
                      else ?st1)"
    have eq: "entries_loop d nh t (e # store) st = entries_loop d nh t store ?st2"
      using Inr e by (simp add: Let_def)
    have c1: "comparisons ?st1 = comparisons ?st0" by simp
    show ?thesis
    proof (cases "VariantComparison v h \<in> set (comparisons ?st2)")
      case True
      then have run: "int k > t \<and> t \<le> 3"
        using Cons.prems(2) c1 by (auto split: if_splits)
      then have "comparisons ?st2 = comparisons ?st0 @ map (\<lambda>v. VariantComparison v eh) (drop 1 nh)"
        using c1 by (simp add: variant_loop_comparisons)
      with True Cons.prems(2) have "h = eh \<and> v \<in> set (drop 1 nh)" by auto
      with run Inr e show ?thesis by auto
    next
      case False
      from Cons.IH[OF _ False] Cons.prems(1) eq
      have "t \<le> 3 \<and> v \<in> set (drop 1 nh)
       \<and> (\<exists>oid k. (h, oid) \<in> set store \<and> hammingDistance (primary d) h = Inr k \<and> int k > t)"
        by simp
      then show ?thesis by auto
    qed
  qed
qed

lemma differing_bits_same: "differing_bits xs xs = 0"
  using differing_bits_zero[of xs xs] by simp

lemma hex_bits_append: "hex_bits (p @ r) = hex_bits p @ hex_bits r"
  by (simp add: hex_bits_def)

lemma differing_bits_common_suffix:
  "length p = length q \<Longrightarrow>
   differing_bits (hex_bits (p @ r)) (hex_bits (q @ r)) = differing_bits (hex_bits p) (hex_bits q)"
  by (simp add: hex_bits_append differing_bits_append length_hex_bits differing_bits_same)

lemma hammingDistance_with_prefix:
  "length p = length q \<Longrightarrow>
   hammingDistance (with_prefix p s) (with_prefix q s) = hammingDistance p q"
  by (simp add: with_prefix_def hammingDistance_bits differing_bits_common_suffix)

lemma hammingDistance_adv_with_prefix:
  "length p = length q \<Longrightarrow>
   hammingDistance_adv (with_prefix p s) (with_prefix q s) = hammingDistance_adv p q"
  by (simp add: with_prefix_def hammingDistance_adv_bits differing_bits_common_suffix)

lemma zeroHash_prefix:
  "zeroHash = with_prefix ''0'' zeroHash" "zeroHash = with_prefix ''000'' zeroHash"
  by (simp_all add: with_prefix_def zeroHash_def)

lemma short_distances:
  "hammingDistance ''3'' ''0'' = Inr 2" "hammingDistance ''f'' ''0'' = Inr 4"
  "hammingDistance ''fff'' ''000'' = Inr 12" "hammingDistance ''8'' ''0'' = Inr 1"
  "hammingDistance_adv ''3'' ''0'' = 2" "hammingDistance_adv ''f'' ''0'' = 4"
  "hammingDistance_adv ''fff'' ''000'' = 12" "hammingDistance_adv ''8'' ''0'' = 1"
  by code_simp+

lemma sample_distances:
  "hammingDistance zeroHash zeroHash = Inr 0"
  "hammingDistance hashB zeroHash = Inr 2"
  "hammingDistance hashC zeroHash = Inr 4"
  "hammingDistance hashD zeroHash = Inr 12"
  "hammingDistance hashF zeroHash = Inr 1"
proof -
  show "hammingDistance zeroHash zeroHash = Inr 0"
    by (simp add: hammingDistance_bits differing_bits_same)
  show "hammingDistance hashB zeroHash = Inr 2"
    unfolding hashB_def by (subst (2) zeroHash_prefix(1)) (simp add: hammingDistance_with_prefix short_distances)
  show "hammingDistance hashC zeroHash = Inr 4"
    unfolding hashC_def by (subst (2) zeroHash_prefix(1)) (simp add: hammingDistance_with_prefix short_distances)
  show "hammingDistance hashD zeroHash = Inr 12"
    unfolding hashD_def by (subst (2) zeroHash_prefix(2)) (simp add: hammingDistance_with_prefix short_distances)
  show "hammingDistance hashF zeroHash = Inr 1"
    unfolding hashF_def by (subst (2) zeroHash_prefix(1)) (simp add: hammingDistance_with_prefix short_distances)
qed

lemma sample_distinct:
  "hashB \<noteq> zeroHash" "hashC \<noteq> zeroHash" "hashD \<noteq> zeroHash" "hashF \<noteq> zeroHash"
  using sample_distances by auto

text \<open>
  Claim C3. \<open>findBestMatch\<close> compares a variant fingerprint with a stored fingerprint
  only when the threshold is at most 3 and the primary comparison with that stored
  fingerprint gave a distance above the threshold. With a threshold above 3 no variant is
  compared. The loop over the variants changes the best match only to a variant
  comparison whose distance is at most the threshold and strictly below the best distance.
\<close>

theorem findBestMatch_variants_only_in_creation_mode:
  "(VariantComparison v h \<in> set (fst (findBestMatch env buf store t)) \<longrightarrow>
      t \<le> 3
      \<and> (\<exists>d oid k. generateRobustPHashFromBuffer env buf = Inr d
            \<and> v \<in> set (map vhash (variants d)) \<and> (h, oid) \<in> set store
            \<and> hammingDistance (primary d) h = Inr k \<and> t < int k))
   \<and> (3 < t \<longrightarrow> (\<forall>v' h'. VariantComparison v' h' \<notin> set (fst (findBestMatch env buf store t))))
   \<and> ((bestMatch (variant_loop t h oid vs st) = bestMatch st
          \<and> bestDistance (variant_loop t h oid vs st) = bestDistance st)
        \<or> (\<exists>w\<in>set vs. \<exists>k. hammingDistance w h = Inr k \<and> int k \<le> t \<and> enat k < bestDistance st
              \<and> bestMatch (variant_loop t h oid vs st)
                  = Some \<lparr>objectId = oid, distance = k, hash = h\<rparr>
              \<and> bestDistance (variant_loop t h oid vs st) = enat k))"
proof -
  have only: "t \<le> 3
      \<and> (\<exists>d oid k. generateRobustPHashFromBuffer env buf = Inr d
            \<and> v' \<in> set (map vhash (variants d)) \<and> (h', oid) \<in> set store
            \<and> hammingDistance (primary d) h' = Inr k \<and> t < int k)"
    if mem: "VariantComparison v' h' \<in> set (fst (findBestMatch env buf store t))" for v' h'
  proof (cases "generateRobustPHashFromBuffer env buf")
    case (Inl e)
    with mem show ?thesis by (simp add: findBestMatch_def)
  next
    case (Inr d)
    let ?nh = "primary d # map vhash (variants d)"
    let ?st = "\<lparr>bestMatch = None, bestDistance = \<infinity>, comparisons = []\<rparr>"
    have "fst (findBestMatch env buf store t) = comparisons (snd (entries_loop d ?nh t store ?st))"
      using Inr by (simp add: findBestMatch_def search_entries_def split: prod.splits option.splits)
    with mem have "VariantComparison v' h' \<in> set (comparisons (snd (entries_loop d ?nh t store ?st)))"
      by simp
    from entries_loop_variant_comparisons[OF this] Inr show ?thesis by auto
  qed
  from only[of v h] only variant_loop_best[of t h oid vs st] show ?thesis
    by (intro conjI impI allI notI) fastforce+
qed

theorem findBestMatch_variants_only_in_creation_mode_witness:
  "VariantComparison zeroHash zeroHash
     \<in> set (fst (findBestMatch (lab_env (hashes_but hashC 1015 (Some zeroHash)) hashF) 1000
                 [(zeroHash, ''obj-A'')] 3))
   \<and> (\<exists>d oid k. generateRobustPHashFromBuffer (lab_env (hashes_but hashC 1015 (Some zeroHash)) hashF) 1000
                   = Inr d
         \<and> zeroHash \<in> set (map vhash (variants d)) \<and> (zeroHash, oid) \<in> set [(zeroHash, ''obj-A'')]
         \<and> hammingDistance (primary d) zeroHash = Inr k \<and> 3 < int k)
   \<and> (3::int) < 12
   \<and> (\<forall>v' h'. VariantComparison v' h'
         \<notin> set (fst (findBestMatch (lab_env (hashes_but hashC 1015 (Some zeroHash)) hashF) 1000
                     [(zeroHash, ''obj-A'')] 12)))"
proof -
  let ?env = "lab_env (hashes_but hashC 1015 (Some zeroHash)) hashF"
  have mem: "VariantComparison zeroHash zeroHash
     \<in> set (fst (findBestMatch ?env 1000 [(zeroHash, ''obj-A'')] 3))"
    by (simp add: findBestMatch_def generateRobustPHashFromBuffer_def lab_env_def hashes_but_def
        rotations_def scales_def search_entries_def sample_distances sample_distinct Let_def)
  have gt: "(3::int) < 12" by simp
  from findBestMatch_variants_only_in_creation_mode
         [of zeroHash zeroHash ?env 1000 "[(zeroHash, ''obj-A'')]" 3] mem
  have a: "\<exists>d oid k. generateRobustPHashFromBuffer ?env 1000 = Inr d
         \<and> zeroHash \<in> set (map vhash (variants d)) \<and> (zeroHash, oid) \<in> set [(zeroHash, ''obj-A'')]
         \<and> hammingDistance (primary d) zeroHash = Inr k \<and> 3 < int k"
    by blast
  from findBestMatch_variants_only_in_creation_mode
         [of zeroHash zeroHash ?env 1000 "[(zeroHash, ''obj-A'')]" 12] gt
  have b: "\<forall>v' h'. VariantComparison v' h'
         \<notin> set (fst (findBestMatch ?env 1000 [(zeroHash, ''obj-A'')] 12))"
    by blast
  from mem a gt b show ?thesis by blast
qed

lemma best_admissible_SomeI:
  assumes "seen = pre @ (hash m, objectId m) # post"
    and "hammingDistance p (hash m) = Inr (distance m)" and "int (distance m) \<le> t"
    and "\<forall>(h, oid) \<in> set pre. \<forall>k. hammingDistance p h = Inr k \<and> int k \<le> t \<longrightarrow> distance m < k"
    and "\<forall>(h, oid) \<in> set post. \<forall>k. hammingDistance p h = Inr k \<and> int k \<le> t \<longrightarrow> distance m \<le> k"
  shows "best_admissible p t seen (Some m)"
  unfolding best_admissible_def option.case using assms by blast

lemma best_admissible_new:
  assumes k: "hammingDistance p h = Inr k" "int k \<le> t"
    and less: "\<forall>(h', oid') \<in> set seen. \<forall>k'. hammingDistance p h' = Inr k' \<and> int k' \<le> t \<longrightarrow> k < k'"
  shows "best_admissible p t (seen @ [(h, oid)]) (Some \<lparr>objectId = oid, distance = k, hash = h\<rparr>)"
proof (rule best_admissible_SomeI[where pre = seen and post = "[]"])
  show "seen @ [(h, oid)]
      = seen @ (hash \<lparr>objectId = oid, distance = k, hash = h\<rparr>,
                objectId \<lparr>objectId = oid, distance = k, hash = h\<rparr>) # []"
    by simp
qed (use k less in simp_all)

lemma best_admissible_step:
  assumes inv: "best_admissible p t seen bm"
    and k: "hammingDistance p h = Inr k"
    and bd: "bd = (case bm of None \<Rightarrow> \<infinity> | Some m \<Rightarrow> enat (distance m))"
  shows "best_admissible p t (seen @ [(h, oid)])
           (if int k \<le> t \<and> enat k < bd
            then Some \<lparr>objectId = oid, distance = k, hash = h\<rparr> else bm)"
proof (cases bm)
  case None
  from inv None have none: "\<forall>(h', oid') \<in> set seen. \<forall>k'. hammingDistance p h' = Inr k' \<longrightarrow> t < int k'"
    by (simp add: best_admissible_def)
  show ?thesis
  proof (cases "int k \<le> t")
    case True
    have "\<forall>(h', oid') \<in> set seen. \<forall>k'. hammingDistance p h' = Inr k' \<and> int k' \<le> t \<longrightarrow> k < k'"
      using none by fastforce
    from best_admissible_new[OF k True this, of oid] True bd None show ?thesis by simp
  next
    case False
    then have "\<forall>(h', oid') \<in> set (seen @ [(h, oid)]). \<forall>k'. hammingDistance p h' = Inr k' \<longrightarrow> t < int k'"
      using none k by auto
    with False None show ?thesis by (simp add: best_admissible_def)
  qed
next
  case (Some m)
  from inv Some have "best_admissible p t seen (Some m)" by simp
  from this[unfolded best_admissible_def option.case] obtain pre post where
    seen: "seen = pre @ (hash m, objectId m) # post"
    and dm: "hammingDistance p (hash m) = Inr (distance m)" "int (distance m) \<le> t"
    and pre: "\<forall>(h, oid) \<in> set pre. \<forall>k. hammingDistance p h = Inr k \<and> int k \<le> t \<longrightarrow> distance m < k"
    and post: "\<forall>(h, oid) \<in> set post. \<forall>k. hammingDistance p h = Inr k \<and> int k \<le> t \<longrightarrow> distance m \<le> k"
    by blast
  show ?thesis
  proof (cases "int k \<le> t \<and> enat k < bd")
    case True
    then have lt: "k < distance m" using bd Some by simp
    have "\<forall>(h', oid') \<in> set seen. \<forall>k'. hammingDistance p h' = Inr k' \<and> int k' \<le> t \<longrightarrow> k < k'"
    proof (clarify)
      fix h' oid' k'
      assume mem: "(h', oid') \<in> set seen" and k': "hammingDistance p h' = Inr k'" "int k' \<le> t"
      from mem seen consider "(h', oid') \<in> set pre" | "h' = hash m" | "(h', oid') \<in> set post"
        by auto
      then show "k < k'"
      proof cases
        case 1
        with pre k' have "distance m < k'" by blast
        with lt show ?thesis by simp
      next
        case 2
        with dm k' have "k' = distance m" by simp
        with lt show ?thesis by simp
      next
        case 3
        with post k' have "distance m \<le> k'" by blast
        with lt show ?thesis by simp
      qed
    qed
    from best_admissible_new[OF k _ this, of oid] True show ?thesis by simp
  next
    case False
    then have "int k \<le> t \<longrightarrow> distance m \<le> k" using bd Some by auto
    with k post have post': "\<forall>(h', oid') \<in> set (post @ [(h, oid)]). \<forall>k'.
        hammingDistance p h' = Inr k' \<and> int k' \<le> t \<longrightarrow> distance m \<le> k'"
      by auto
    have "seen @ [(h, oid)] = pre @ (hash m, objectId m) # (post @ [(h, oid)])"
      using seen by simp
    from best_admissible_SomeI[OF this dm pre post'] False Some show ?thesis by auto
  qed
qed

lemma variant_loop_no_hit:
  assumes "\<forall>v \<in> set vs. \<forall>k. hammingDistance v h = Inr k \<longrightarrow> t < int k"
  shows "bestMatch (variant_loop t h oid vs st) = bestMatch st
       \<and> bestDistance (variant_loop t h oid vs st) = bestDistance st"
proof -
  from variant_loop_best[of t h oid vs st] show ?thesis
  proof
    assume "\<exists>v\<in>set vs. \<exists>k. hammingDistance v h = Inr k \<and> int k \<le> t \<and> enat k < bestDistance st
        \<and> bestMatch (variant_loop t h oid vs st) = Some \<lparr>objectId = oid, distance = k, hash = h\<rparr>
        \<and> bestDistance (variant_loop t h oid vs st) = enat k"
    then obtain v k where "v \<in> set vs" "hammingDistance v h = Inr k" "int k \<le> t" by blast
    with assms have "t < int k" by blast
    with \<open>int k \<le> t\<close> show ?thesis by simp
  qed
qed

lemma no_variant_hit_Cons:
  "no_variant_hit p vs t ((h, oid) # rest) \<longleftrightarrow>
     (\<forall>v \<in> set vs. \<forall>j k.
         hammingDistance p h = Inr j \<and> t < int j \<and> hammingDistance v h = Inr k \<longrightarrow> t < int k)
     \<and> no_variant_hit p vs t rest"
  by (simp add: no_variant_hit_def)

lemma entries_loop_best:
  assumes "best_admissible (primary d) t seen (bestMatch st)"
    and "bestDistance st = (case bestMatch st of None \<Rightarrow> \<infinity> | Some m \<Rightarrow> enat (distance m))"
    and "\<forall>(h, oid) \<in> set rest. length h = length (primary d)"
    and "3 < t \<or> no_variant_hit (primary d) (drop 1 nh) t rest"
  shows "\<exists>st'. entries_loop d nh t rest st = (None, st')
       \<and> best_admissible (primary d) t (seen @ rest) (bestMatch st')"
  using assms
proof (induction rest arbitrary: seen st)
  case Nil
  then show ?case by simp
next
  case (Cons e rest)
  obtain h oid where e: "e = (h, oid)" by (cases e)
  let ?p = "primary d"
  from Cons.prems(3) e have "length ?p = length h" by simp
  then obtain k where k: "hammingDistance ?p h = Inr k"
    by (simp add: hammingDistance_def)
  let ?st0 = "st\<lparr>comparisons := comparisons st @ [PrimaryComparison ?p h]\<rparr>"
  let ?st1 = "(if int k \<le> t \<and> enat k < bestDistance ?st0
                      then ?st0\<lparr>bestDistance := enat k,
                               bestMatch := Some \<lparr>objectId = oid, distance = k, hash = h\<rparr>\<rparr>
                      else ?st0)"
  let ?st2 = "(if int k > t \<and> t \<le> 3
                      then variant_loop t h oid (drop 1 nh) ?st1
                      else ?st1)"
  have eq: "entries_loop d nh t (e # rest) st = entries_loop d nh t rest ?st2"
    using k e by (simp add: Let_def)
  have bm1: "bestMatch ?st1 = (if int k \<le> t \<and> enat k < bestDistance st
            then Some \<lparr>objectId = oid, distance = k, hash = h\<rparr> else bestMatch st)"
    by simp
  have bd1: "bestDistance ?st1 = (case bestMatch ?st1 of None \<Rightarrow> \<infinity> | Some m \<Rightarrow> enat (distance m))"
    using Cons.prems(2) by simp
  have same: "bestMatch ?st2 = bestMatch ?st1 \<and> bestDistance ?st2 = bestDistance ?st1"
  proof (cases "int k > t \<and> t \<le> 3")
    case True
    with Cons.prems(4) have "no_variant_hit ?p (drop 1 nh) t (e # rest)" by linarith
    then have "\<forall>v \<in> set (drop 1 nh). \<forall>j k.
         hammingDistance ?p h = Inr j \<and> t < int j \<and> hammingDistance v h = Inr k \<longrightarrow> t < int k"
      unfolding e no_variant_hit_Cons by (rule conjunct1)
    with k True have "\<forall>v \<in> set (drop 1 nh). \<forall>j. hammingDistance v h = Inr j \<longrightarrow> t < int j"
      by blast
    from variant_loop_no_hit[OF this, of oid ?st1] True show ?thesis by simp
  next
    case False
    then have "?st2 = ?st1" by (simp only: if_False)
    then show ?thesis by (simp only:)
  qed
  have inv: "best_admissible ?p t (seen @ [(h, oid)]) (bestMatch ?st2)"
    using best_admissible_step[OF Cons.prems(1) k Cons.prems(2), of oid] same bm1 by simp
  have bd2: "bestDistance ?st2 = (case bestMatch ?st2 of None \<Rightarrow> \<infinity> | Some m \<Rightarrow> enat (distance m))"
    using same bd1 by simp
  have len: "\<forall>(h, oid) \<in> set rest. length h = length ?p" using Cons.prems(3) by simp
  have nv: "3 < t \<or> no_variant_hit ?p (drop 1 nh) t rest"
    using Cons.prems(4) unfolding e no_variant_hit_Cons by blast
  from Cons.IH[OF inv bd2 len nv] eq e show ?case by simp
qed

lemma findBestMatch_entries:
  assumes "generateRobustPHashFromBuffer env buf = Inr d"
    and "entries_loop d (primary d # map vhash (variants d)) t store
           \<lparr>bestMatch = None, bestDistance = \<infinity>, comparisons = []\<rparr> = (None, st')"
  shows "findBestMatch env buf store t = (comparisons st', bestMatch st')"
  using assms by (simp add: findBestMatch_def search_entries_def)

text \<open>
  Claim C1, amended. Let the bundle of the new image be generated and let every stored
  fingerprint have the length of its primary fingerprint. When the threshold is above 3,
  or when no variant fingerprint is within the threshold of a stored fingerprint that the
  primary comparison did not admit, \<open>findBestMatch\<close> returns the entry whose primary
  distance is at most the threshold and smallest, the earliest one among equals, and
  \<open>null\<close> when no entry is within the threshold. With the single entry \<open>h1\<close> for
  \<open>obj-A\<close> and a primary fingerprint at distance 2 from \<open>h1\<close>, threshold 3 gives
  \<open>obj-A\<close> at distance 2, and threshold 1 gives \<open>null\<close> when no variant fingerprint is
  within distance 1 of \<open>h1\<close>.
\<close>

theorem findBestMatch_best_admissible:
  assumes gen: "generateRobustPHashFromBuffer env buf = Inr d"
  shows "((\<forall>(h, oid) \<in> set store. length h = length (primary d))
          \<and> (3 < t \<or> no_variant_hit (primary d) (map vhash (variants d)) t store)
          \<longrightarrow> best_admissible (primary d) t store (snd (findBestMatch env buf store t)))
       \<and> (hammingDistance (primary d) h1 = Inr 2
          \<longrightarrow> snd (findBestMatch env buf [(h1, ''obj-A'')] 3)
                = Some \<lparr>objectId = ''obj-A'', distance = 2, hash = h1\<rparr>)
       \<and> (hammingDistance (primary d) h1 = Inr 2
            \<and> no_variant_hit (primary d) (map vhash (variants d)) 1 [(h1, ''obj-A'')]
          \<longrightarrow> snd (findBestMatch env buf [(h1, ''obj-A'')] 1) = None)"
proof -
  let ?nh = "primary d # map vhash (variants d)"
  let ?st = "\<lparr>bestMatch = None, bestDistance = \<infinity>, comparisons = []\<rparr>"
  have general: "best_admissible (primary d) t' s (snd (findBestMatch env buf s t'))"
    if len: "\<forall>(h, oid) \<in> set s. length h = length (primary d)"
      and nv: "3 < t' \<or> no_variant_hit (primary d) (map vhash (variants d)) t' s"
    for s t'
  proof -
    have i1: "best_admissible (primary d) t' [] (bestMatch ?st)"
      by (simp add: best_admissible_def)
    have i2: "bestDistance ?st = (case bestMatch ?st of None \<Rightarrow> \<infinity> | Some m \<Rightarrow> enat (distance m))"
      by simp
    have nv': "3 < t' \<or> no_variant_hit (primary d) (drop 1 ?nh) t' s"
      using nv by simp
    from entries_loop_best[OF i1 i2 len nv'] obtain st' where
      st': "entries_loop d ?nh t' s ?st = (None, st')"
      and best: "best_admissible (primary d) t' ([] @ s) (bestMatch st')"
      by blast
    from findBestMatch_entries[OF gen st'] best show ?thesis by simp
  qed
  have three: "snd (findBestMatch env buf [(h1, ''obj-A'')] 3)
                = Some \<lparr>objectId = ''obj-A'', distance = 2, hash = h1\<rparr>"
    if "hammingDistance (primary d) h1 = Inr 2"
    using gen that by (simp add: findBestMatch_def search_entries_def)
  have one: "snd (findBestMatch env buf [(h1, ''obj-A'')] 1) = None"
    if d2: "hammingDistance (primary d) h1 = Inr 2"
      and nv: "no_variant_hit (primary d) (map vhash (variants d)) 1 [(h1, ''obj-A'')]"
  proof -
    from d2 have "length h1 = length (primary d)"
      by (simp add: hammingDistance_def split: if_splits)
    then have len: "\<forall>(h, oid) \<in> set [(h1, ''obj-A'')]. length h = length (primary d)" by simp
    from general[OF len] nv
    have best: "best_admissible (primary d) 1 [(h1, ''obj-A'')]
                  (snd (findBestMatch env buf [(h1, ''obj-A'')] 1))"
      by blast
    show ?thesis
    proof (cases "snd (findBestMatch env buf [(h1, ''obj-A'')] 1)")
      case None
      then show ?thesis .
    next
      case (Some m)
      with best obtain pre post where
        "[(h1, ''obj-A'')] = pre @ (hash m, objectId m) # post"
        "hammingDistance (primary d) (hash m) = Inr (distance m)" "int (distance m) \<le> 1"
        unfolding best_admissible_def by auto
      moreover from this(1) have "hash m = h1" by (cases pre) auto
      ultimately show ?thesis using d2 by simp
    qed
  qed
  from general[of store t] three one show ?thesis by blast
qed

lemma sample_length: "length hashB = length zeroHash"
  by (simp add: hashB_def with_prefix_def zeroHash_def)

lemma sample_bundle:
  "generateRobustPHashFromBuffer (lab_env (hashes_but hashB 0 None) hashF) 1000 = Inr bundleB"
  by (simp add: generateRobustPHashFromBuffer_def lab_env_def hashes_but_def bundleB_def
      rotations_def scales_def sample_distinct)

theorem findBestMatch_best_admissible_witness:
  "generateRobustPHashFromBuffer (lab_env (hashes_but hashB 0 None) hashF) 1000 = Inr bundleB
   \<and> length zeroHash = length (primary bundleB) \<and> length hashB = length (primary bundleB)
   \<and> (3::int) < 12
   \<and> best_admissible (primary bundleB) 12 [(zeroHash, ''obj-A''), (hashB, ''obj-B'')]
        (snd (findBestMatch (lab_env (hashes_but hashB 0 None) hashF) 1000
                [(zeroHash, ''obj-A''), (hashB, ''obj-B'')] 12))
   \<and> hammingDistance (primary bundleB) zeroHash = Inr 2
   \<and> snd (findBestMatch (lab_env (hashes_but hashB 0 None) hashF) 1000 [(zeroHash, ''obj-A'')] 3)
       = Some \<lparr>objectId = ''obj-A'', distance = 2, hash = zeroHash\<rparr>
   \<and> no_variant_hit (primary bundleB) (map vhash (variants bundleB)) 1 [(zeroHash, ''obj-A'')]
   \<and> snd (findBestMatch (lab_env (hashes_but hashB 0 None) hashF) 1000 [(zeroHash, ''obj-A'')] 1)
       = None"
proof -
  let ?env = "lab_env (hashes_but hashB 0 None) hashF"
  let ?s = "[(zeroHash, ''obj-A''), (hashB, ''obj-B'')]"
  have gen: "generateRobustPHashFromBuffer ?env 1000 = Inr bundleB" by (rule sample_bundle)
  have len: "\<forall>(h, oid) \<in> set ?s. length h = length (primary bundleB)"
    by (simp add: bundleB_def sample_length)
  have gt: "(3::int) < 12" by simp
  have d2: "hammingDistance (primary bundleB) zeroHash = Inr 2"
    by (simp add: bundleB_def sample_distances)
  have nv: "no_variant_hit (primary bundleB) (map vhash (variants bundleB)) 1 [(zeroHash, ''obj-A'')]"
    by (simp add: no_variant_hit_def bundleB_def sample_distances rotations_def scales_def)
  from findBestMatch_best_admissible[OF gen, of ?s 12 zeroHash] len gt d2 nv
  have "best_admissible (primary bundleB) 12 ?s (snd (findBestMatch ?env 1000 ?s 12))
      \<and> snd (findBestMatch ?env 1000 [(zeroHash, ''obj-A'')] 3)
          = Some \<lparr>objectId = ''obj-A'', distance = 2, hash = zeroHash\<rparr>
      \<and> snd (findBestMatch ?env 1000 [(zeroHash, ''obj-A'')] 1) = None"
    by blast
  moreover have "length zeroHash = length (primary bundleB) \<and> length hashB = length (primary bundleB)"
    using len by simp
  ultimately show ?thesis using gen gt d2 nv by blast
qed

text \<open>
  Claim C1 as stated fails for the threshold 1 of its scenario. The primary fingerprint
  \<open>hashB\<close> is at distance 2 from the stored \<open>zeroHash\<close>, so no entry is within the
  threshold, yet the fingerprint of the variant rotated by 15 degrees is at distance 0
  and \<open>findBestMatch\<close> returns \<open>obj-A\<close>.
\<close>

theorem findBestMatch_scenario_counterexample:
  "image_hash (lab_env (hashes_but hashB 1015 (Some zeroHash)) hashF) 1000 = Some hashB
   \<and> hashB \<noteq> zeroHash
   \<and> hammingDistance hashB zeroHash = Inr 2
   \<and> snd (findBestMatch (lab_env (hashes_but hashB 1015 (Some zeroHash)) hashF) 1000
            [(zeroHash, ''obj-A'')] 1)
       = Some \<lparr>objectId = ''obj-A'', distance = 0, hash = zeroHash\<rparr>"
  by (simp add: findBestMatch_def generateRobustPHashFromBuffer_def lab_env_def hashes_but_def
      rotations_def scales_def search_entries_def sample_distances sample_distinct Let_def
      zero_enat_def)

section \<open>The multi-stage verifier\<close>

lemma stage1_loop_cases:
  "(\<exists>d. d \<le> 3 \<and> stage1_loop q stored r =
        Return (r\<lparr>stage1_phash := \<lparr>matched = True, confidence = 0.95, stage_distance = d\<rparr>,
                  overall := \<lparr>matched = True, confidence = 0.95, matching_method = ''direct_phash''\<rparr>\<rparr>))
   \<or> (\<exists>m. stage1_loop q stored r =
        Next (r\<lparr>stage1_phash := (stage1_phash r)\<lparr>stage_distance := m\<rparr>\<rparr>))"
proof (induction stored arbitrary: r)
  case Nil
  have "r = r\<lparr>stage1_phash := (stage1_phash r)\<lparr>stage_distance := stage_distance (stage1_phash r)\<rparr>\<rparr>"
    by simp
  then have "stage1_loop q [] r
      = Next (r\<lparr>stage1_phash := (stage1_phash r)\<lparr>stage_distance := stage_distance (stage1_phash r)\<rparr>\<rparr>)"
    by simp
  then show ?case by blast
next
  case (Cons x stored)
  show ?case
  proof (cases "hammingDistance_adv q x \<le> 3")
    case True
    then show ?thesis by (auto simp: Let_def)
  next
    case False
    let ?r = "r\<lparr>stage1_phash :=
               (stage1_phash r)\<lparr>stage_distance := min (stage_distance (stage1_phash r)) (hammingDistance_adv q x)\<rparr>\<rparr>"
    have eq: "stage1_loop q (x # stored) r = stage1_loop q stored ?r"
      using False by (simp add: Let_def)
    from Cons.IH[of ?r] show ?thesis unfolding eq by auto
  qed
qed

lemma stage1_loop_hit:
  assumes "\<forall>x\<in>set pre. \<not> hammingDistance_adv q x \<le> 3" and "hammingDistance_adv q s \<le> 3"
  shows "stage1_loop q (pre @ s # post) r =
        Return (r\<lparr>stage1_phash := \<lparr>matched = True, confidence = 0.95,
                                    stage_distance = hammingDistance_adv q s\<rparr>,
                  overall := \<lparr>matched = True, confidence = 0.95, matching_method = ''direct_phash''\<rparr>\<rparr>)"
  using assms by (induction pre arbitrary: r) (simp_all add: Let_def)

lemma stage1_loop_miss:
  assumes "\<forall>x\<in>set stored. \<not> hammingDistance_adv q x \<le> 3"
  shows "\<exists>m. stage1_loop q stored r =
        Next (r\<lparr>stage1_phash := (stage1_phash r)\<lparr>stage_distance := m\<rparr>\<rparr>)"
proof -
  have "\<forall>r r'. stage1_loop q stored r \<noteq> Return r'"
    using assms by (induction stored) (simp_all add: Let_def)
  with stage1_loop_cases[of q stored r] show ?thesis by blast
qed

lemma stage2_scan_cases:
  "(\<exists>d. d \<le> 8 \<and> stage2_scan q stored r =
        Return (r\<lparr>stage2_rotation := \<lparr>matched = True, confidence = 0.85, stage_distance = d\<rparr>,
                  overall := \<lparr>matched = True, confidence = 0.85, matching_method = ''rotation_phash''\<rparr>\<rparr>))
   \<or> (\<exists>m. stage2_scan q stored r =
        Next (r\<lparr>stage2_rotation := (stage2_rotation r)\<lparr>stage_distance := m\<rparr>\<rparr>))"
proof (induction stored arbitrary: r)
  case Nil
  have "r = r\<lparr>stage2_rotation := (stage2_rotation r)\<lparr>stage_distance := stage_distance (stage2_rotation r)\<rparr>\<rparr>"
    by simp
  then have "stage2_scan q [] r
      = Next (r\<lparr>stage2_rotation := (stage2_rotation r)\<lparr>stage_distance := stage_distance (stage2_rotation r)\<rparr>\<rparr>)"
    by simp
  then show ?case by blast
next
  case (Cons x stored)
  show ?case
  proof (cases "hammingDistance_adv q x \<le> 8")
    case True
    then show ?thesis by (auto simp: Let_def)
  next
    case False
    let ?r = "r\<lparr>stage2_rotation :=
               (stage2_rotation r)\<lparr>stage_distance := min (stage_distance (stage2_rotation r)) (hammingDistance_adv q x)\<rparr>\<rparr>"
    have eq: "stage2_scan q (x # stored) r = stage2_scan q stored ?r"
      using False by (simp add: Let_def)
    from Cons.IH[of ?r] show ?thesis unfolding eq by auto
  qed
qed

lemma stage2_scan_hit:
  assumes "\<forall>x\<in>set pre. \<not> hammingDistance_adv q x \<le> 8" and "hammingDistance_adv q s \<le> 8"
  shows "stage2_scan q (pre @ s # post) r =
        Return (r\<lparr>stage2_rotation := \<lparr>matched = True, confidence = 0.85,
                                    stage_distance = hammingDistance_adv q s\<rparr>,
                  overall := \<lparr>matched = True, confidence = 0.85, matching_method = ''rotation_phash''\<rparr>\<rparr>)"
  using assms by (induction pre arbitrary: r) (simp_all add: Let_def)

lemma stage2_scan_miss:
  assumes "\<forall>x\<in>set stored. \<not> hammingDistance_adv q x \<le> 8"
  shows "\<exists>m. stage2_scan q stored r =
        Next (r\<lparr>stage2_rotation := (stage2_rotation r)\<lparr>stage_distance := m\<rparr>\<rparr>)"
proof -
  have "\<forall>r r'. stage2_scan q stored r \<noteq> Return r'"
    using assms by (induction stored) (simp_all add: Let_def)
  with stage2_scan_cases[of q stored r] show ?thesis by blast
qed

lemma results_same_distance:
  "r\<lparr>stage2_rotation := (stage2_rotation r)\<lparr>stage_distance := stage_distance (stage2_rotation r)\<rparr>\<rparr> = r"
  by simp

lemma stage2_loop_cases:
  "\<exists>ops' r'. (stage2_loop env nb stored angles (ops, r) = Return (ops', r')
                \<or> stage2_loop env nb stored angles (ops, r) = Next (ops', r'))
     \<and> ((\<exists>d. r' = r\<lparr>stage2_rotation := \<lparr>matched = True, confidence = 0.85, stage_distance = d\<rparr>,
                     overall := \<lparr>matched = True, confidence = 0.85, matching_method = ''rotation_phash''\<rparr>\<rparr>)
        \<or> (\<exists>m. r' = r\<lparr>stage2_rotation := (stage2_rotation r)\<lparr>stage_distance := m\<rparr>\<rparr>))"
proof (induction angles arbitrary: ops r)
  case Nil
  have "stage2_loop env nb stored [] (ops, r) = Next (ops, r)" by simp
  with results_same_distance[of r, symmetric] show ?case by blast
next
  case (Cons angle angles)
  show ?case
  proof (cases "sharp_rotate env angle nb")
    case None
    then have "stage2_loop env nb stored (angle # angles) (ops, r)
             = Return (ops @ [OpRotate angle], r)" by simp
    with results_same_distance[of r, symmetric] show ?thesis by blast
  next
    case (Some rb)
    note rb = this
    show ?thesis
    proof (cases "image_hash env rb")
      case None
      with rb have "stage2_loop env nb stored (angle # angles) (ops, r)
             = Return (ops @ [OpRotate angle, OpImageHash], r)" by simp
      with results_same_distance[of r, symmetric] show ?thesis by blast
    next
      case (Some rh)
      from stage2_scan_cases[of rh stored r] show ?thesis
      proof
        assume "\<exists>d\<le>8. stage2_scan rh stored r =
          Return (r\<lparr>stage2_rotation := \<lparr>matched = True, confidence = 0.85, stage_distance = d\<rparr>,
                    overall := \<lparr>matched = True, confidence = 0.85, matching_method = ''rotation_phash''\<rparr>\<rparr>)"
        then obtain d where "stage2_scan rh stored r =
          Return (r\<lparr>stage2_rotation := \<lparr>matched = True, confidence = 0.85, stage_distance = d\<rparr>,
                    overall := \<lparr>matched = True, confidence = 0.85, matching_method = ''rotation_phash''\<rparr>\<rparr>)"
          by blast
        with rb Some have "stage2_loop env nb stored (angle # angles) (ops, r)
             = Return (ops @ [OpRotate angle, OpImageHash],
                 r\<lparr>stage2_rotation := \<lparr>matched = True, confidence = 0.85, stage_distance = d\<rparr>,
                    overall := \<lparr>matched = True, confidence = 0.85, matching_method = ''rotation_phash''\<rparr>\<rparr>)"
          by simp
        then show ?thesis by blast
      next
        assume "\<exists>m. stage2_scan rh stored r =
          Next (r\<lparr>stage2_rotation := (stage2_rotation r)\<lparr>stage_distance := m\<rparr>\<rparr>)"
        then obtain m where m: "stage2_scan rh stored r =
          Next (r\<lparr>stage2_rotation := (stage2_rotation r)\<lparr>stage_distance := m\<rparr>\<rparr>)"
          by blast
        let ?r1 = "r\<lparr>stage2_rotation := (stage2_rotation r)\<lparr>stage_distance := m\<rparr>\<rparr>"
        let ?ops1 = "ops @ [OpRotate angle, OpImageHash]"
        have eq: "stage2_loop env nb stored (angle # angles) (ops, r)
                = stage2_loop env nb stored angles (?ops1, ?r1)"
          using rb Some m by simp
        from Cons.IH[of ?ops1 ?r1] obtain ops' r' where
          fl: "stage2_loop env nb stored angles (?ops1, ?r1) = Return (ops', r')
                \<or> stage2_loop env nb stored angles (?ops1, ?r1) = Next (ops', r')"
          and sh: "(\<exists>d. r' = ?r1\<lparr>stage2_rotation := \<lparr>matched = True, confidence = 0.85, stage_distance = d\<rparr>,
                     overall := \<lparr>matched = True, confidence = 0.85, matching_method = ''rotation_phash''\<rparr>\<rparr>)
            \<or> (\<exists>m'. r' = ?r1\<lparr>stage2_rotation := (stage2_rotation ?r1)\<lparr>stage_distance := m'\<rparr>\<rparr>)"
          by blast
        from sh have "(\<exists>d. r' = r\<lparr>stage2_rotation := \<lparr>matched = True, confidence = 0.85, stage_distance = d\<rparr>,
                     overall := \<lparr>matched = True, confidence = 0.85, matching_method = ''rotation_phash''\<rparr>\<rparr>)
            \<or> (\<exists>m'. r' = r\<lparr>stage2_rotation := (stage2_rotation r)\<lparr>stage_distance := m'\<rparr>\<rparr>)"
          by simp
        with fl eq show ?thesis by metis
      qed
    qed
  qed
qed

lemma stage2_loop_hit:
  assumes "\<forall>a'\<in>set as. \<exists>rb rh. sharp_rotate env a' nb = Some rb \<and> image_hash env rb = Some rh
              \<and> (\<forall>x\<in>set (pre @ s # post). \<not> hammingDistance_adv rh x \<le> 8)"
    and "sharp_rotate env a nb = Some rb" and "image_hash env rb = Some rh"
    and "\<forall>x\<in>set pre. \<not> hammingDistance_adv rh x \<le> 8" and "hammingDistance_adv rh s \<le> 8"
  shows "stage2_loop env nb (pre @ s # post) (as @ a # as') (ops, r) =
         Return (ops @ concat (map (\<lambda>a. [OpRotate a, OpImageHash]) (as @ [a])),
                 r\<lparr>stage2_rotation := \<lparr>matched = True, confidence = 0.85,
                                       stage_distance = hammingDistance_adv rh s\<rparr>,
                   overall := \<lparr>matched = True, confidence = 0.85, matching_method = ''rotation_phash''\<rparr>\<rparr>)"
  using assms(1)
proof (induction as arbitrary: ops r)
  case Nil
  show ?case
    using assms(2,3) stage2_scan_hit[OF assms(4,5), of post r] by simp
next
  case (Cons a' as)
  from Cons.prems have "\<exists>rb rh. sharp_rotate env a' nb = Some rb \<and> image_hash env rb = Some rh
              \<and> (\<forall>x\<in>set (pre @ s # post). \<not> hammingDistance_adv rh x \<le> 8)"
    by (simp only: list.set ball_simps(7))
  then obtain rb' rh' where
    rot: "sharp_rotate env a' nb = Some rb'" "image_hash env rb' = Some rh'"
    and miss: "\<forall>x\<in>set (pre @ s # post). \<not> hammingDistance_adv rh' x \<le> 8"
    by blast
  from stage2_scan_miss[OF miss, of r] obtain m where
    m: "stage2_scan rh' (pre @ s # post) r
        = Next (r\<lparr>stage2_rotation := (stage2_rotation r)\<lparr>stage_distance := m\<rparr>\<rparr>)"
    by blast
  let ?r1 = "r\<lparr>stage2_rotation := (stage2_rotation r)\<lparr>stage_distance := m\<rparr>\<rparr>"
  have rest: "\<forall>a'\<in>set as. \<exists>rb rh. sharp_rotate env a' nb = Some rb \<and> image_hash env rb = Some rh
              \<and> (\<forall>x\<in>set (pre @ s # post). \<not> hammingDistance_adv rh x \<le> 8)"
    using Cons.prems by simp
  have "stage2_loop env nb (pre @ s # post) ((a' # as) @ a # as') (ops, r)
      = stage2_loop env nb (pre @ s # post) (as @ a # as') (ops @ [OpRotate a', OpImageHash], ?r1)"
    using rot m by simp
  also have "\<dots> = Return ((ops @ [OpRotate a', OpImageHash]) @ concat (map (\<lambda>a. [OpRotate a, OpImageHash]) (as @ [a])),
                 ?r1\<lparr>stage2_rotation := \<lparr>matched = True, confidence = 0.85,
                                       stage_distance = hammingDistance_adv rh s\<rparr>,
                   overall := \<lparr>matched = True, confidence = 0.85, matching_method = ''rotation_phash''\<rparr>\<rparr>)"
    by (rule Cons.IH[OF rest])
  finally show ?case by simp
qed

lemma stage2_loop_aux_fields:
  "stage2_loop (env\<lparr>color_histogram := c, edge_hash := e\<rparr>) nb stored angles st
   = stage2_loop env nb stored angles st"
proof (induction angles arbitrary: st)
  case Nil
  then show ?case by (cases st) simp
next
  case (Cons a angles)
  then show ?case by (cases st) (simp split: option.splits flow.splits)
qed

lemma hammingDistance_adv_eq:
  "hammingDistance a b = Inr k \<Longrightarrow> hammingDistance_adv a b = enat k"
proof -
  assume h: "hammingDistance a b = Inr k"
  then have len: "length a = length b"
    by (simp add: hammingDistance_def split: if_splits)
  with h show ?thesis by (simp add: hammingDistance_bits hammingDistance_adv_bits)
qed

lemma sample_distances_adv:
  "hammingDistance_adv zeroHash zeroHash = 0"
  "hammingDistance_adv hashB zeroHash = 2"
  "hammingDistance_adv hashC zeroHash = 4"
  "hammingDistance_adv hashD zeroHash = 12"
  "hammingDistance_adv hashF zeroHash = 1"
  by (simp_all add: sample_distances[THEN hammingDistance_adv_eq] zero_enat_def one_enat_def
      numeral_eq_enat)

text \<open>
  Claim C2. Let the input be normalised and hashed. When some stored fingerprint is
  within distance 3 of the input's fingerprint, the first such one in store order gives
  the report: stage 1 matched with confidence 0.95, method \<open>direct_phash\<close>, and nothing
  is rotated. Only when no stored fingerprint is within distance 3 does the verifier
  rotate: it goes through the angles 5, 10, 15, 30, 45, 90, 180, 270, 345, 350, 355 in
  this order, hashes each rotated image and scans the store, and the first angle and
  first stored fingerprint within distance 8 give the report: stage 2 matched with
  confidence 0.85, method \<open>rotation_phash\<close>.
\<close>

theorem verifyImageMatch_stage_order:
  assumes norm: "sharp_normalize env img = Some nb" and inp: "image_hash env nb = Some inputHash"
  shows "(stored = pre @ s # post \<and> (\<forall>x\<in>set pre. \<not> hammingDistance_adv inputHash x \<le> 3)
            \<and> hammingDistance_adv inputHash s \<le> 3
          \<longrightarrow> verifyImageMatch env img stored =
               ([OpNormalize, OpImageHash],
                initial_results
                  \<lparr>stage1_phash := \<lparr>matched = True, confidence = 0.95,
                                    stage_distance = hammingDistance_adv inputHash s\<rparr>,
                   overall := \<lparr>matched = True, confidence = 0.95, matching_method = ''direct_phash''\<rparr>\<rparr>))
       \<and> ((\<forall>x\<in>set stored. \<not> hammingDistance_adv inputHash x \<le> 3)
            \<and> rotationAngles = as @ a # as'
            \<and> (\<forall>a'\<in>set as. \<exists>rb' rh'. sharp_rotate env a' nb = Some rb' \<and> image_hash env rb' = Some rh'
                   \<and> (\<forall>x\<in>set stored. \<not> hammingDistance_adv rh' x \<le> 8))
            \<and> sharp_rotate env a nb = Some rb \<and> image_hash env rb = Some rh
            \<and> stored = pre @ s # post \<and> (\<forall>x\<in>set pre. \<not> hammingDistance_adv rh x \<le> 8)
            \<and> hammingDistance_adv rh s \<le> 8
          \<longrightarrow> fst (verifyImageMatch env img stored)
                = [OpNormalize, OpImageHash] @ concat (map (\<lambda>a. [OpRotate a, OpImageHash]) (as @ [a]))
              \<and> overall (snd (verifyImageMatch env img stored))
                = \<lparr>matched = True, confidence = 0.85, matching_method = ''rotation_phash''\<rparr>
              \<and> stage2_rotation (snd (verifyImageMatch env img stored))
                = \<lparr>matched = True, confidence = 0.85, stage_distance = hammingDistance_adv rh s\<rparr>
              \<and> \<not> matched (stage1_phash (snd (verifyImageMatch env img stored))))
       \<and> (OpRotate angle \<in> set (fst (verifyImageMatch env img stored))
          \<longrightarrow> (\<forall>x\<in>set stored. \<not> hammingDistance_adv inputHash x \<le> 3))
       \<and> rotationAngles = [5, 10, 15, 30, 45, 90, 180, 270, 345, 350, 355]"
proof -
  have direct: "verifyImageMatch env img (pre' @ s' # post') =
               ([OpNormalize, OpImageHash],
                initial_results
                  \<lparr>stage1_phash := \<lparr>matched = True, confidence = 0.95,
                                    stage_distance = hammingDistance_adv inputHash s'\<rparr>,
                   overall := \<lparr>matched = True, confidence = 0.95, matching_method = ''direct_phash''\<rparr>\<rparr>)"
    if "\<forall>x\<in>set pre'. \<not> hammingDistance_adv inputHash x \<le> 3"
      and "hammingDistance_adv inputHash s' \<le> 3" for pre' s' post'
    using norm inp stage1_loop_hit[OF that, of post' initial_results]
    by (simp add: verifyImageMatch_def)
  have rotation: "fst (verifyImageMatch env img stored)
                = [OpNormalize, OpImageHash] @ concat (map (\<lambda>a. [OpRotate a, OpImageHash]) (as @ [a]))
              \<and> overall (snd (verifyImageMatch env img stored))
                = \<lparr>matched = True, confidence = 0.85, matching_method = ''rotation_phash''\<rparr>
              \<and> stage2_rotation (snd (verifyImageMatch env img stored))
                = \<lparr>matched = True, confidence = 0.85, stage_distance = hammingDistance_adv rh s\<rparr>
              \<and> \<not> matched (stage1_phash (snd (verifyImageMatch env img stored)))"
    if miss: "\<forall>x\<in>set stored. \<not> hammingDistance_adv inputHash x \<le> 3"
      and angles: "rotationAngles = as @ a # as'"
      and before: "\<forall>a'\<in>set as. \<exists>rb' rh'. sharp_rotate env a' nb = Some rb' \<and> image_hash env rb' = Some rh'
                   \<and> (\<forall>x\<in>set stored. \<not> hammingDistance_adv rh' x \<le> 8)"
      and rot: "sharp_rotate env a nb = Some rb" "image_hash env rb = Some rh"
      and st: "stored = pre @ s # post"
      and hit: "\<forall>x\<in>set pre. \<not> hammingDistance_adv rh x \<le> 8" "hammingDistance_adv rh s \<le> 8"
  proof -
    from stage1_loop_miss[OF miss, of initial_results] obtain m where
      m: "stage1_loop inputHash stored initial_results
          = Next (initial_results\<lparr>stage1_phash :=
                    (stage1_phash initial_results)\<lparr>stage_distance := m\<rparr>\<rparr>)"
      by blast
    let ?r1 = "initial_results\<lparr>stage1_phash := (stage1_phash initial_results)\<lparr>stage_distance := m\<rparr>\<rparr>"
    from before st have before': "\<forall>a'\<in>set as. \<exists>rb' rh'. sharp_rotate env a' nb = Some rb'
         \<and> image_hash env rb' = Some rh'
         \<and> (\<forall>x\<in>set (pre @ s # post). \<not> hammingDistance_adv rh' x \<le> 8)"
      by simp
    have "stage2_loop env nb stored rotationAngles ([OpNormalize, OpImageHash], ?r1)
        = Return ([OpNormalize, OpImageHash] @ concat (map (\<lambda>a. [OpRotate a, OpImageHash]) (as @ [a])),
                 ?r1\<lparr>stage2_rotation := \<lparr>matched = True, confidence = 0.85,
                                       stage_distance = hammingDistance_adv rh s\<rparr>,
                   overall := \<lparr>matched = True, confidence = 0.85, matching_method = ''rotation_phash''\<rparr>\<rparr>)"
      unfolding angles st by (rule stage2_loop_hit[OF before' rot hit])
    with norm inp m show ?thesis
      by (simp add: verifyImageMatch_def initial_results_def)
  qed
  have entered: "\<forall>x\<in>set stored. \<not> hammingDistance_adv inputHash x \<le> 3"
    if mem: "OpRotate angle \<in> set (fst (verifyImageMatch env img stored))"
  proof (rule ccontr)
    assume "\<not> (\<forall>x\<in>set stored. \<not> hammingDistance_adv inputHash x \<le> 3)"
    then have "\<exists>x\<in>set stored. hammingDistance_adv inputHash x \<le> 3" by blast
    from split_list_first_prop[OF this] obtain pre' s' post' where
      "stored = pre' @ s' # post'" "hammingDistance_adv inputHash s' \<le> 3"
      "\<forall>y\<in>set pre'. \<not> hammingDistance_adv inputHash y \<le> 3"
      by blast
    with direct[of pre' s' post'] have "fst (verifyImageMatch env img stored) = [OpNormalize, OpImageHash]"
      by simp
    with mem show False by simp
  qed
  have angles: "rotationAngles = [5, 10, 15, 30, 45, 90, 180, 270, 345, 350, 355]"
    by (simp add: rotationAngles_def)
  from direct[of pre s post] rotation entered angles show ?thesis by blast
qed

theorem verifyImageMatch_stage_order_witness:
  "sharp_normalize (lab_env (hashes_but hashB 0 None) hashF) 1000 = Some 1000
   \<and> image_hash (lab_env (hashes_but hashB 0 None) hashF) 1000 = Some hashB
   \<and> hammingDistance_adv hashB zeroHash \<le> 3
   \<and> verifyImageMatch (lab_env (hashes_but hashB 0 None) hashF) 1000 [zeroHash] =
        ([OpNormalize, OpImageHash],
         initial_results
           \<lparr>stage1_phash := \<lparr>matched = True, confidence = 0.95,
                             stage_distance = hammingDistance_adv hashB zeroHash\<rparr>,
            overall := \<lparr>matched = True, confidence = 0.95, matching_method = ''direct_phash''\<rparr>\<rparr>)
   \<and> sharp_normalize (lab_env (hashes_but hashD 1005 (Some hashC)) hashF) 1000 = Some 1000
   \<and> image_hash (lab_env (hashes_but hashD 1005 (Some hashC)) hashF) 1000 = Some hashD
   \<and> \<not> hammingDistance_adv hashD zeroHash \<le> 3
   \<and> sharp_rotate (lab_env (hashes_but hashD 1005 (Some hashC)) hashF) 5 1000 = Some 1005
   \<and> image_hash (lab_env (hashes_but hashD 1005 (Some hashC)) hashF) 1005 = Some hashC
   \<and> hammingDistance_adv hashC zeroHash \<le> 8
   \<and> fst (verifyImageMatch (lab_env (hashes_but hashD 1005 (Some hashC)) hashF) 1000 [zeroHash])
       = [OpNormalize, OpImageHash, OpRotate 5, OpImageHash]
   \<and> overall (snd (verifyImageMatch (lab_env (hashes_but hashD 1005 (Some hashC)) hashF) 1000 [zeroHash]))
       = \<lparr>matched = True, confidence = 0.85, matching_method = ''rotation_phash''\<rparr>
   \<and> OpRotate 5 \<in> set (fst (verifyImageMatch (lab_env (hashes_but hashD 1005 (Some hashC)) hashF) 1000
                               [zeroHash]))"
proof -
  let ?e1 = "lab_env (hashes_but hashB 0 None) hashF"
  let ?e2 = "lab_env (hashes_but hashD 1005 (Some hashC)) hashF"
  have n1: "sharp_normalize ?e1 1000 = Some 1000" by (simp add: lab_env_def)
  have h1: "image_hash ?e1 1000 = Some hashB" by (simp add: lab_env_def hashes_but_def)
  have d1: "hammingDistance_adv hashB zeroHash \<le> 3" by (simp add: sample_distances_adv)
  have n2: "sharp_normalize ?e2 1000 = Some 1000" by (simp add: lab_env_def)
  have h2: "image_hash ?e2 1000 = Some hashD" by (simp add: lab_env_def hashes_but_def)
  have d2: "\<not> hammingDistance_adv hashD zeroHash \<le> 3" by (simp add: sample_distances_adv)
  have r2: "sharp_rotate ?e2 5 1000 = Some 1005" by (simp add: lab_env_def)
  have h3: "image_hash ?e2 1005 = Some hashC" by (simp add: lab_env_def hashes_but_def)
  have d3: "hammingDistance_adv hashC zeroHash \<le> 8" by (simp add: sample_distances_adv)
  have angles: "rotationAngles = [] @ 5 # [10, 15, 30, 45, 90, 180, 270, 345, 350, 355]"
    by (simp add: rotationAngles_def)
  have direct: "verifyImageMatch ?e1 1000 [zeroHash] =
        ([OpNormalize, OpImageHash],
         initial_results
           \<lparr>stage1_phash := \<lparr>matched = True, confidence = 0.95,
                             stage_distance = hammingDistance_adv hashB zeroHash\<rparr>,
            overall := \<lparr>matched = True, confidence = 0.95, matching_method = ''direct_phash''\<rparr>\<rparr>)"
    using verifyImageMatch_stage_order[OF n1 h1, of "[zeroHash]" "[]" zeroHash "[]"] d1
    by simp
  have rot: "fst (verifyImageMatch ?e2 1000 [zeroHash])
                = [OpNormalize, OpImageHash] @ concat (map (\<lambda>a. [OpRotate a, OpImageHash]) ([] @ [5]))
              \<and> overall (snd (verifyImageMatch ?e2 1000 [zeroHash]))
                = \<lparr>matched = True, confidence = 0.85, matching_method = ''rotation_phash''\<rparr>"
    using verifyImageMatch_stage_order[OF n2 h2, of "[zeroHash]" "[]" zeroHash "[]" "[]" 5
        "[10, 15, 30, 45, 90, 180, 270, 345, 350, 355]" 1005 hashC] d2 angles r2 h3 d3
    by simp
  then have ops: "fst (verifyImageMatch ?e2 1000 [zeroHash])
       = [OpNormalize, OpImageHash, OpRotate 5, OpImageHash]"
    by simp
  then have mem: "OpRotate 5 \<in> set (fst (verifyImageMatch ?e2 1000 [zeroHash]))" by simp
  from n1 h1 d1 direct n2 h2 d2 r2 h3 d3 ops rot mem show ?thesis by blast
qed

lemma initial_same:
  "initial_results\<lparr>stage1_phash := (stage1_phash initial_results)\<lparr>stage_distance := \<infinity>\<rparr>,
                   stage2_rotation := (stage2_rotation initial_results)\<lparr>stage_distance := \<infinity>\<rparr>\<rparr>
   = initial_results"
  by (simp add: initial_results_def)

lemma verifyImageMatch_shapes:
  "\<exists>d m m'.
     snd (verifyImageMatch env img stored)
       = initial_results\<lparr>stage1_phash := \<lparr>matched = True, confidence = 0.95, stage_distance = d\<rparr>,
                         overall := \<lparr>matched = True, confidence = 0.95, matching_method = ''direct_phash''\<rparr>\<rparr>
   \<or> snd (verifyImageMatch env img stored)
       = initial_results\<lparr>stage1_phash := (stage1_phash initial_results)\<lparr>stage_distance := m\<rparr>,
                         stage2_rotation := \<lparr>matched = True, confidence = 0.85, stage_distance = d\<rparr>,
                         overall := \<lparr>matched = True, confidence = 0.85, matching_method = ''rotation_phash''\<rparr>\<rparr>
   \<or> snd (verifyImageMatch env img stored)
       = initial_results\<lparr>stage1_phash := (stage1_phash initial_results)\<lparr>stage_distance := m\<rparr>,
                         stage2_rotation := (stage2_rotation initial_results)\<lparr>stage_distance := m'\<rparr>\<rparr>"
proof (cases "sharp_normalize env img")
  case None
  then have "snd (verifyImageMatch env img stored) = initial_results"
    by (simp add: verifyImageMatch_def)
  with initial_same show ?thesis by metis
next
  case (Some nb)
  note nb = this
  show ?thesis
  proof (cases "image_hash env nb")
    case None
    with nb have "snd (verifyImageMatch env img stored) = initial_results"
      by (simp add: verifyImageMatch_def)
    with initial_same show ?thesis by metis
  next
    case (Some inputHash)
    from stage1_loop_cases[of inputHash stored initial_results] show ?thesis
    proof
      assume "\<exists>d\<le>3. stage1_loop inputHash stored initial_results =
        Return (initial_results\<lparr>stage1_phash := \<lparr>matched = True, confidence = 0.95, stage_distance = d\<rparr>,
                  overall := \<lparr>matched = True, confidence = 0.95, matching_method = ''direct_phash''\<rparr>\<rparr>)"
      then obtain d where "stage1_loop inputHash stored initial_results =
        Return (initial_results\<lparr>stage1_phash := \<lparr>matched = True, confidence = 0.95, stage_distance = d\<rparr>,
                  overall := \<lparr>matched = True, confidence = 0.95, matching_method = ''direct_phash''\<rparr>\<rparr>)"
        by blast
      with nb Some have "snd (verifyImageMatch env img stored)
         = initial_results\<lparr>stage1_phash := \<lparr>matched = True, confidence = 0.95, stage_distance = d\<rparr>,
                  overall := \<lparr>matched = True, confidence = 0.95, matching_method = ''direct_phash''\<rparr>\<rparr>"
        by (simp add: verifyImageMatch_def)
      then show ?thesis by blast
    next
      assume "\<exists>m. stage1_loop inputHash stored initial_results =
        Next (initial_results\<lparr>stage1_phash := (stage1_phash initial_results)\<lparr>stage_distance := m\<rparr>\<rparr>)"
      then obtain m where m: "stage1_loop inputHash stored initial_results =
        Next (initial_results\<lparr>stage1_phash := (stage1_phash initial_results)\<lparr>stage_distance := m\<rparr>\<rparr>)"
        by blast
      let ?r1 = "initial_results\<lparr>stage1_phash := (stage1_phash initial_results)\<lparr>stage_distance := m\<rparr>\<rparr>"
      let ?ops = "[OpNormalize, OpImageHash]"
      from stage2_loop_cases[of env nb stored rotationAngles ?ops ?r1] obtain ops' r' where
        fl: "stage2_loop env nb stored rotationAngles (?ops, ?r1) = Return (ops', r')
              \<or> stage2_loop env nb stored rotationAngles (?ops, ?r1) = Next (ops', r')"
        and sh: "(\<exists>d. r' = ?r1\<lparr>stage2_rotation := \<lparr>matched = True, confidence = 0.85, stage_distance = d\<rparr>,
                     overall := \<lparr>matched = True, confidence = 0.85, matching_method = ''rotation_phash''\<rparr>\<rparr>)
            \<or> (\<exists>m'. r' = ?r1\<lparr>stage2_rotation := (stage2_rotation ?r1)\<lparr>stage_distance := m'\<rparr>\<rparr>)"
        by blast
      from fl nb Some m have res: "snd (verifyImageMatch env img stored) = r'"
        by (auto simp: verifyImageMatch_def Let_def)
      from sh have "(\<exists>d. r' = initial_results\<lparr>stage1_phash := (stage1_phash initial_results)\<lparr>stage_distance := m\<rparr>,
                         stage2_rotation := \<lparr>matched = True, confidence = 0.85, stage_distance = d\<rparr>,
                         overall := \<lparr>matched = True, confidence = 0.85, matching_method = ''rotation_phash''\<rparr>\<rparr>)
            \<or> (\<exists>m'. r' = initial_results\<lparr>stage1_phash := (stage1_phash initial_results)\<lparr>stage_distance := m\<rparr>,
                         stage2_rotation := (stage2_rotation initial_results)\<lparr>stage_distance := m'\<rparr>\<rparr>)"
        by simp
      with res show ?thesis by blast
    qed
  qed
qed

lemma verifyImageMatch_aux_fields:
  "snd (verifyImageMatch (env\<lparr>color_histogram := c, edge_hash := e\<rparr>) img stored)
   = snd (verifyImageMatch env img stored)"
  by (simp add: verifyImageMatch_def stage2_loop_aux_fields Let_def
      split: option.splits flow.splits prod.splits)

lemma sample_direct:
  "verifyImageMatch (lab_env (hashes_but hashB 0 None) hashF) 1000 [zeroHash] =
        ([OpNormalize, OpImageHash],
         initial_results
           \<lparr>stage1_phash := \<lparr>matched = True, confidence = 0.95, stage_distance = 2\<rparr>,
            overall := \<lparr>matched = True, confidence = 0.95, matching_method = ''direct_phash''\<rparr>\<rparr>)"
  by (simp add: verifyImageMatch_def lab_env_def hashes_but_def sample_distances_adv)

lemma sample_rotation:
  "verifyImageMatch (lab_env (hashes_but hashD 1005 (Some hashC)) hashF) 1000 [zeroHash] =
        ([OpNormalize, OpImageHash, OpRotate 5, OpImageHash],
         initial_results
           \<lparr>stage1_phash := \<lparr>matched = False, confidence = 0, stage_distance = 12\<rparr>,
            stage2_rotation := \<lparr>matched = True, confidence = 0.85, stage_distance = 4\<rparr>,
            overall := \<lparr>matched = True, confidence = 0.85, matching_method = ''rotation_phash''\<rparr>\<rparr>)"
  by (simp add: verifyImageMatch_def lab_env_def hashes_but_def sample_distances_adv
      rotationAngles_def initial_results_def)

lemma sample_undecodable:
  "verifyImageMatch (lab_env (hashes_but hashB 0 None) hashF) 0 [zeroHash]
     = ([OpNormalize], initial_results)"
  by (simp add: verifyImageMatch_def lab_env_def)

text \<open>
  Claim C10. In every report of \<open>verifyImageMatch\<close>, \<open>overall.matched\<close> holds exactly
  when the method is \<open>direct_phash\<close> or \<open>rotation_phash\<close>; with \<open>direct_phash\<close> the
  confidence is 0.95 and stage 1 is matched, with \<open>rotation_phash\<close> the confidence is
  0.85 and stage 2 is matched; otherwise \<open>overall\<close> is unmatched with confidence 0 and
  method \<open>none\<close>. The colour and edge stages keep their initial, unmatched entries, and
  the report does not depend on the histogram and edge computations.
\<close>

theorem verifyImageMatch_report_consistent:
  assumes r: "r = snd (verifyImageMatch env img stored)"
  shows "(matched (overall r) \<longleftrightarrow>
            matching_method (overall r) = ''direct_phash'' \<or> matching_method (overall r) = ''rotation_phash'')
       \<and> (matching_method (overall r) = ''direct_phash''
            \<longrightarrow> confidence (overall r) = 0.95 \<and> matched (stage1_phash r))
       \<and> (matching_method (overall r) = ''rotation_phash''
            \<longrightarrow> confidence (overall r) = 0.85 \<and> matched (stage2_rotation r))
       \<and> (\<not> matched (overall r)
            \<longrightarrow> overall r = \<lparr>matched = False, confidence = 0, matching_method = ''none''\<rparr>)
       \<and> stage3_color r = \<lparr>matched = False, confidence = 0, similarity = 1\<rparr>
       \<and> stage4_edge r = \<lparr>matched = False, confidence = 0, similarity = 1\<rparr>
       \<and> snd (verifyImageMatch (env\<lparr>color_histogram := c, edge_hash := e\<rparr>) img stored) = r"
proof -
  from verifyImageMatch_shapes[of env img stored] r obtain d m m' where
    "r = initial_results\<lparr>stage1_phash := \<lparr>matched = True, confidence = 0.95, stage_distance = d\<rparr>,
                         overall := \<lparr>matched = True, confidence = 0.95, matching_method = ''direct_phash''\<rparr>\<rparr>
   \<or> r = initial_results\<lparr>stage1_phash := (stage1_phash initial_results)\<lparr>stage_distance := m\<rparr>,
                         stage2_rotation := \<lparr>matched = True, confidence = 0.85, stage_distance = d\<rparr>,
                         overall := \<lparr>matched = True, confidence = 0.85, matching_method = ''rotation_phash''\<rparr>\<rparr>
   \<or> r = initial_results\<lparr>stage1_phash := (stage1_phash initial_results)\<lparr>stage_distance := m\<rparr>,
                         stage2_rotation := (stage2_rotation initial_results)\<lparr>stage_distance := m'\<rparr>\<rparr>"
    by metis
  then have "(matched (overall r) \<longleftrightarrow>
            matching_method (overall r) = ''direct_phash'' \<or> matching_method (overall r) = ''rotation_phash'')
       \<and> (matching_method (overall r) = ''direct_phash''
            \<longrightarrow> confidence (overall r) = 0.95 \<and> matched (stage1_phash r))
       \<and> (matching_method (overall r) = ''rotation_phash''
            \<longrightarrow> confidence (overall r) = 0.85 \<and> matched (stage2_rotation r))
       \<and> (\<not> matched (overall r)
            \<longrightarrow> overall r = \<lparr>matched = False, confidence = 0, matching_method = ''none''\<rparr>)
       \<and> stage3_color r = \<lparr>matched = False, confidence = 0, similarity = 1\<rparr>
       \<and> stage4_edge r = \<lparr>matched = False, confidence = 0, similarity = 1\<rparr>"
    by (elim disjE) (simp_all add: initial_results_def)
  with verifyImageMatch_aux_fields[where env = env and c = c and e = e and img = img and stored = stored] r
  show ?thesis by simp
qed

theorem verifyImageMatch_report_consistent_witness:
  "matching_method (overall (snd (verifyImageMatch (lab_env (hashes_but hashB 0 None) hashF) 1000 [zeroHash])))
     = ''direct_phash''
   \<and> confidence (overall (snd (verifyImageMatch (lab_env (hashes_but hashB 0 None) hashF) 1000
                                 [zeroHash]))) = 0.95
   \<and> matched (stage1_phash (snd (verifyImageMatch (lab_env (hashes_but hashB 0 None) hashF) 1000
                                 [zeroHash])))
   \<and> matching_method (overall (snd (verifyImageMatch (lab_env (hashes_but hashD 1005 (Some hashC)) hashF) 1000
                             [zeroHash]))) = ''rotation_phash''
   \<and> confidence (overall (snd (verifyImageMatch (lab_env (hashes_but hashD 1005 (Some hashC)) hashF)
                                 1000 [zeroHash]))) = 0.85
   \<and> matched (stage2_rotation (snd (verifyImageMatch (lab_env (hashes_but hashD 1005 (Some hashC)) hashF)
                                 1000 [zeroHash])))
   \<and> \<not> matched (overall (snd (verifyImageMatch (lab_env (hashes_but hashB 0 None) hashF) 0 [zeroHash])))
   \<and> overall (snd (verifyImageMatch (lab_env (hashes_but hashB 0 None) hashF) 0 [zeroHash]))
       = \<lparr>matched = False, confidence = 0, matching_method = ''none''\<rparr>"
proof -
  let ?r1 = "snd (verifyImageMatch (lab_env (hashes_but hashB 0 None) hashF) 1000 [zeroHash])"
  let ?r2 = "snd (verifyImageMatch (lab_env (hashes_but hashD 1005 (Some hashC)) hashF) 1000 [zeroHash])"
  let ?r3 = "snd (verifyImageMatch (lab_env (hashes_but hashB 0 None) hashF) 0 [zeroHash])"
  have m1: "matching_method (overall ?r1) = ''direct_phash''" by (simp add: sample_direct)
  have m2: "matching_method (overall ?r2) = ''rotation_phash''" by (simp add: sample_rotation)
  have m3: "\<not> matched (overall ?r3)" by (simp add: sample_undecodable initial_results_def)
  from verifyImageMatch_report_consistent[OF refl, of "lab_env (hashes_but hashB 0 None) hashF" 1000
         "[zeroHash]"] m1
  have a: "confidence (overall ?r1) = 0.95 \<and> matched (stage1_phash ?r1)" by blast
  from verifyImageMatch_report_consistent[OF refl, of "lab_env (hashes_but hashD 1005 (Some hashC)) hashF"
         1000 "[zeroHash]"] m2
  have b: "confidence (overall ?r2) = 0.85 \<and> matched (stage2_rotation ?r2)" by blast
  from verifyImageMatch_report_consistent[OF refl, of "lab_env (hashes_but hashB 0 None) hashF" 0
         "[zeroHash]"] m3
  have c: "overall ?r3 = \<lparr>matched = False, confidence = 0, matching_method = ''none''\<rparr>" by blast
  from m1 a m2 b m3 c show ?thesis by blast
qed

section \<open>Failures of the libraries\<close>

lemma rotation_loop_fails:
  "\<exists>r\<in>set rs. rotation_fails env nb r \<Longrightarrow> rotation_loop env nb rs hashes = Inl UnsupportedImage"
  by (induction rs arbitrary: hashes) (auto simp: rotation_fails_def split: option.splits)

lemma rotation_loop_error: "rotation_loop env nb rs hashes = Inl e \<Longrightarrow> e = UnsupportedImage"
  by (induction rs arbitrary: hashes) (auto split: option.splits)

lemma scale_loop_fails:
  "\<exists>s\<in>set ss. scale_fails env nb s \<Longrightarrow> scale_loop env nb ss hashes = Inl UnsupportedImage"
  by (induction ss arbitrary: hashes) (auto simp: scale_fails_def split: option.splits)

text \<open>
  Claim C8, amended. When the image is normalised and hashed but the generation of one
  variant fingerprint fails, a rotation or a scale, the generation of the bundle fails
  with that error: there is no bundle, and \<open>findBestMatch\<close> returns \<open>null\<close>.
\<close>

theorem variant_failure_fails_bundle:
  assumes norm: "sharp_normalize env img = Some nb"
    and orig: "image_hash env nb = Some originalHash"
    and fail: "(\<exists>r\<in>set rotations. rotation_fails env nb r) \<or> (\<exists>s\<in>set scales. scale_fails env nb s)"
  shows "generateRobustPHashFromBuffer env img = Inl UnsupportedImage
       \<and> findBestMatch env img store t = ([], None)"
proof -
  have gen: "generateRobustPHashFromBuffer env img = Inl UnsupportedImage"
  proof (cases "rotation_loop env nb rotations [\<lparr>vtype = Original, vhash = originalHash\<rparr>]")
    case (Inl e)
    then have "e = UnsupportedImage" by (rule rotation_loop_error)
    with Inl norm orig show ?thesis by (simp add: generateRobustPHashFromBuffer_def)
  next
    case (Inr hashes1)
    with fail rotation_loop_fails[of rotations env nb "[\<lparr>vtype = Original, vhash = originalHash\<rparr>]"]
    have "\<exists>s\<in>set scales. scale_fails env nb s" by auto
    then have "scale_loop env nb scales hashes1 = Inl UnsupportedImage" by (rule scale_loop_fails)
    with Inr norm orig show ?thesis by (simp add: generateRobustPHashFromBuffer_def)
  qed
  then show ?thesis by (simp add: findBestMatch_def)
qed

theorem variant_failure_fails_bundle_witness:
  "sharp_normalize (lab_env (hashes_but hashB 1015 None) hashF) 1000 = Some 1000
   \<and> image_hash (lab_env (hashes_but hashB 1015 None) hashF) 1000 = Some hashB
   \<and> (\<exists>r\<in>set rotations. rotation_fails (lab_env (hashes_but hashB 1015 None) hashF) 1000 r)
   \<and> generateRobustPHashFromBuffer (lab_env (hashes_but hashB 1015 None) hashF) 1000
       = Inl UnsupportedImage
   \<and> findBestMatch (lab_env (hashes_but hashB 1015 None) hashF) 1000 [(zeroHash, ''obj-A'')] 3
       = ([], None)"
proof -
  let ?env = "lab_env (hashes_but hashB 1015 None) hashF"
  have n: "sharp_normalize ?env 1000 = Some 1000" by (simp add: lab_env_def)
  have h: "image_hash ?env 1000 = Some hashB" by (simp add: lab_env_def hashes_but_def)
  have "rotation_fails ?env 1000 15" by (simp add: rotation_fails_def lab_env_def hashes_but_def)
  then have f: "\<exists>r\<in>set rotations. rotation_fails ?env 1000 r" by (simp add: rotations_def)
  from variant_failure_fails_bundle[OF n h disjI1[OF f], of "[(zeroHash, ''obj-A'')]" 3] n h f
  show ?thesis by blast
qed

text \<open>
  Claim C8 as stated fails: the image is normalised and hashed, the variant rotated by
  15 degrees cannot be hashed, and the generation of the bundle fails as a whole.
\<close>

theorem variant_failure_counterexample:
  "sharp_normalize (lab_env (hashes_but hashB 1015 None) hashF) 1000 = Some 1000
   \<and> image_hash (lab_env (hashes_but hashB 1015 None) hashF) 1000 = Some hashB
   \<and> sharp_rotate (lab_env (hashes_but hashB 1015 None) hashF) 15 1000 = Some 1015
   \<and> image_hash (lab_env (hashes_but hashB 1015 None) hashF) 1015 = None
   \<and> generateRobustPHashFromBuffer (lab_env (hashes_but hashB 1015 None) hashF) 1000
       = Inl UnsupportedImage"
  by (simp add: generateRobustPHashFromBuffer_def lab_env_def hashes_but_def rotations_def)

text \<open>
  Claim C6, amended. When the image cannot be decoded, the generation of the bundle
  fails with the error, \<open>findBestMatch\<close> catches it and returns \<open>null\<close>, and
  \<open>verifyImageMatch\<close> catches it and returns its initial report, which is unmatched.
\<close>

theorem undecodable_image_is_reported_as_no_match:
  assumes "sharp_normalize env img = None"
  shows "generateRobustPHashFromBuffer env img = Inl UnsupportedImage
       \<and> findBestMatch env img store t = ([], None)
       \<and> verifyImageMatch env img stored = ([OpNormalize], initial_results)
       \<and> overall (snd (verifyImageMatch env img stored))
           = \<lparr>matched = False, confidence = 0, matching_method = ''none''\<rparr>"
  using assms
  by (simp add: generateRobustPHashFromBuffer_def findBestMatch_def verifyImageMatch_def
      initial_results_def)

theorem undecodable_image_is_reported_as_no_match_witness:
  "sharp_normalize (lab_env (hashes_but hashB 0 None) hashF) 0 = None
   \<and> generateRobustPHashFromBuffer (lab_env (hashes_but hashB 0 None) hashF) 0 = Inl UnsupportedImage
   \<and> findBestMatch (lab_env (hashes_but hashB 0 None) hashF) 0 [(zeroHash, ''obj-A'')] 3 = ([], None)
   \<and> verifyImageMatch (lab_env (hashes_but hashB 0 None) hashF) 0 [zeroHash]
       = ([OpNormalize], initial_results)"
proof -
  have n: "sharp_normalize (lab_env (hashes_but hashB 0 None) hashF) 0 = None"
    by (simp add: lab_env_def)
  from undecodable_image_is_reported_as_no_match[OF n, of "[(zeroHash, ''obj-A'')]" 3 "[zeroHash]"] n
  show ?thesis by blast
qed

text \<open>
  Claim C6 as stated fails: image 0 cannot be decoded, and both calls return their
  ordinary negative result instead of failing.
\<close>

theorem undecodable_image_counterexample:
  "sharp_normalize (lab_env (hashes_but hashB 0 None) hashF) 0 = None
   \<and> snd (findBestMatch (lab_env (hashes_but hashB 0 None) hashF) 0 [(zeroHash, ''obj-A'')] 3) = None
   \<and> overall (snd (verifyImageMatch (lab_env (hashes_but hashB 0 None) hashF) 0 [zeroHash]))
       = \<lparr>matched = False, confidence = 0, matching_method = ''none''\<rparr>"
  by (simp add: generateRobustPHashFromBuffer_def findBestMatch_def verifyImageMatch_def
      initial_results_def lab_env_def)

section \<open>Fallback fingerprints and length mismatches\<close>








lemma variant_loop_append:
  "variant_loop t h oid (xs @ ys) st = variant_loop t h oid ys (variant_loop t h oid xs st)"
  by (induction xs arbitrary: st) (simp_all add: Let_def split: sum.splits)

lemma entries_loop_mismatch:
  assumes "(b, oid) \<in> set store" and "length (primary d) \<noteq> length b"
  shows "fst (entries_loop d nh t store st) = Some HashLengthsMustBeEqual"
  using assms(1)
proof (induction store arbitrary: st)
  case Nil
  then show ?case by simp
next
  case (Cons e store)
  obtain h oid' where e: "e = (h, oid')" by (cases e)
  show ?case
  proof (cases "hammingDistance (primary d) h")
    case (Inl err)
    then have "err = HashLengthsMustBeEqual"
      by (simp add: hammingDistance_def split: if_splits)
    with Inl e show ?thesis by (simp add: Let_def)
  next
    case (Inr k)
    then have "length (primary d) = length h"
      by (simp add: hammingDistance_def split: if_splits)
    with assms(2) have "h \<noteq> b" by auto
    with Cons.prems e have mem: "(b, oid) \<in> set store" by simp
    from Inr e Cons.IH[OF mem] show ?thesis by (simp add: Let_def)
  qed
qed

lemma stage1_loop_skip:
  assumes "length a \<noteq> length b"
  shows "stage1_loop a (pre @ b # post) r = stage1_loop a (pre @ post) r"
proof (induction pre arbitrary: r)
  case Nil
  have "hammingDistance_adv a b = \<infinity>" using assms by (simp add: hammingDistance_adv_def)
  then show ?case by (simp add: Let_def)
next
  case (Cons x pre)
  then show ?case by (simp add: Let_def)
qed

lemma stage2_scan_skip:
  assumes "length a \<noteq> length b"
  shows "stage2_scan a (pre @ b # post) r = stage2_scan a (pre @ post) r"
proof (induction pre arbitrary: r)
  case Nil
  have "hammingDistance_adv a b = \<infinity>" using assms by (simp add: hammingDistance_adv_def)
  then show ?case by (simp add: Let_def)
next
  case (Cons x pre)
  then show ?case by (simp add: Let_def)
qed

lemma stage2_loop_skip:
  assumes "\<forall>i h. image_hash env i = Some h \<longrightarrow> length h \<noteq> length b"
  shows "stage2_loop env nb (pre @ b # post) angles st = stage2_loop env nb (pre @ post) angles st"
proof (induction angles arbitrary: st)
  case Nil
  then show ?case by (cases st) simp
next
  case (Cons angle angles)
  obtain ops r where st: "st = (ops, r)" by (cases st)
  show ?case
  proof (cases "sharp_rotate env angle nb")
    case None
    with st show ?thesis by simp
  next
    case (Some rb)
    note rb = this
    show ?thesis
    proof (cases "image_hash env rb")
      case None
      with rb st show ?thesis by simp
    next
      case (Some rh)
      with assms have "length rh \<noteq> length b" by blast
      from stage2_scan_skip[OF this, of pre post r] rb Some st Cons.IH show ?thesis
        by (simp split: flow.splits)
    qed
  qed
qed

lemma verifyImageMatch_skip:
  assumes "\<forall>i h. image_hash env i = Some h \<longrightarrow> length h \<noteq> length b"
  shows "verifyImageMatch env img (pre @ b # post) = verifyImageMatch env img (pre @ post)"
proof (cases "sharp_normalize env img")
  case None
  then show ?thesis by (simp add: verifyImageMatch_def)
next
  case (Some nb)
  note nb = this
  show ?thesis
  proof (cases "image_hash env nb")
    case None
    with nb show ?thesis by (simp add: verifyImageMatch_def)
  next
    case (Some inputHash)
    with assms have "length inputHash \<noteq> length b" by blast
    from stage1_loop_skip[OF this, of pre post initial_results] nb Some
    show ?thesis
      by (simp add: verifyImageMatch_def stage2_loop_skip[OF assms] split: flow.splits)
  qed
qed

text \<open>
  Claim C5, amended. For strings of unequal length \<open>ImageProcessor.hammingDistance\<close>
  fails with its error, and \<open>AdvancedImageMatcher.hammingDistance\<close> returns \<open>Infinity\<close>,
  which is above both thresholds of the verifier: a stored string of another length counts
  as a miss wherever it stands in the store, and when no hash of the libraries has its
  length the verifier runs as if the string were not stored. In \<open>findBestMatch\<close> a
  variant comparison that fails is recorded and skipped, wherever the variant stands in
  the list, and the loop goes on with the variants after it. A primary comparison that
  fails makes the call return \<open>null\<close>, at whatever entry of the store it happens and
  whatever match was found before.
\<close>

theorem length_mismatch_is_not_surfaced:
  assumes "length a \<noteq> length b"
  shows "hammingDistance a b = Inl HashLengthsMustBeEqual
       \<and> hammingDistance_adv a b = \<infinity>
       \<and> \<not> hammingDistance_adv a b \<le> 3 \<and> \<not> hammingDistance_adv a b \<le> 8
       \<and> stage1_loop a (pre @ b # post) r = stage1_loop a (pre @ post) r
       \<and> stage2_scan a (pre @ b # post) r = stage2_scan a (pre @ post) r
       \<and> ((\<forall>i h. image_hash env i = Some h \<longrightarrow> length h \<noteq> length b)
          \<longrightarrow> verifyImageMatch env img (pre @ b # post) = verifyImageMatch env img (pre @ post))
       \<and> variant_loop t b oid [a] st
           = st\<lparr>comparisons := comparisons st @ [VariantComparison a b]\<rparr>
       \<and> variant_loop t b oid (vs1 @ a # vs2) st
           = variant_loop t b oid vs2
               ((variant_loop t b oid vs1 st)
                  \<lparr>comparisons := comparisons (variant_loop t b oid vs1 st)
                                    @ [VariantComparison a b]\<rparr>)
       \<and> (generateRobustPHashFromBuffer env img = Inr d \<and> primary d = a
          \<longrightarrow> findBestMatch env img ((b, oid) # rest) t = ([PrimaryComparison a b], None))
       \<and> (generateRobustPHashFromBuffer env img = Inr d \<and> primary d = a \<and> (b, oid) \<in> set store
          \<longrightarrow> snd (findBestMatch env img store t) = None)"
proof -
  have d1: "hammingDistance a b = Inl HashLengthsMustBeEqual"
    using assms by (simp add: hammingDistance_def)
  have d2: "hammingDistance_adv a b = \<infinity>"
    using assms by (simp add: hammingDistance_adv_def)
  have v1: "variant_loop t b oid [a] st
           = st\<lparr>comparisons := comparisons st @ [VariantComparison a b]\<rparr>"
    using d1 by (simp add: Let_def)
  have v2: "variant_loop t b oid (vs1 @ a # vs2) st
           = variant_loop t b oid vs2
               ((variant_loop t b oid vs1 st)
                  \<lparr>comparisons := comparisons (variant_loop t b oid vs1 st)
                                    @ [VariantComparison a b]\<rparr>)"
    using d1 by (simp add: variant_loop_append Let_def)
  have f1: "findBestMatch env img ((b, oid) # rest) t = ([PrimaryComparison a b], None)"
    if "generateRobustPHashFromBuffer env img = Inr d" "primary d = a"
    using that d1 by (simp add: findBestMatch_def search_entries_def Let_def)
  have f2: "snd (findBestMatch env img store t) = None"
    if gen: "generateRobustPHashFromBuffer env img = Inr d" and p: "primary d = a"
      and mem: "(b, oid) \<in> set store"
  proof -
    from assms p have "length (primary d) \<noteq> length b" by simp
    from entries_loop_mismatch[OF mem this]
    have "fst (search_entries d store t) = Some HashLengthsMustBeEqual"
      by (simp add: search_entries_def)
    with gen show ?thesis
      by (cases "search_entries d store t") (simp add: findBestMatch_def)
  qed
  from d1 d2 v1 v2 f1 f2 stage1_loop_skip[OF assms, of pre post r]
    stage2_scan_skip[OF assms, of pre post r] verifyImageMatch_skip[of env b img pre post]
  show ?thesis by (simp add: d2)
qed

theorem length_mismatch_is_not_surfaced_witness:
  "length hashB \<noteq> length ''00''
   \<and> hammingDistance hashB ''00'' = Inl HashLengthsMustBeEqual
   \<and> hammingDistance_adv hashB ''00'' = \<infinity>
   \<and> generateRobustPHashFromBuffer (lab_env (hashes_but hashB 0 None) hashF) 1000 = Inr bundleB
   \<and> primary bundleB = hashB
   \<and> findBestMatch (lab_env (hashes_but hashB 0 None) hashF) 1000 [(''00'', ''obj-A'')] 3
       = ([PrimaryComparison hashB ''00''], None)
   \<and> snd (findBestMatch (lab_env (hashes_but hashB 0 None) hashF) 1000 [(zeroHash, ''obj-A'')] 3)
       = Some \<lparr>objectId = ''obj-A'', distance = 2, hash = zeroHash\<rparr>
   \<and> (''00'', ''obj-B'') \<in> set [(zeroHash, ''obj-A''), (''00'', ''obj-B'')]
   \<and> snd (findBestMatch (lab_env (hashes_but hashB 0 None) hashF) 1000
            [(zeroHash, ''obj-A''), (''00'', ''obj-B'')] 3) = None
   \<and> verifyImageMatch (lab_env (hashes_but hashB 0 None) hashF) 1000 ([zeroHash] @ ''00'' # [])
       = verifyImageMatch (lab_env (hashes_but hashB 0 None) hashF) 1000 ([zeroHash] @ [])"
proof -
  let ?env = "lab_env (hashes_but hashB 0 None) hashF"
  let ?store = "[(zeroHash, ''obj-A''), (''00'', ''obj-B'')]"
  have l: "length hashB \<noteq> length ''00''"
    by (simp add: hashB_def with_prefix_def zeroHash_def)
  have p: "primary bundleB = hashB" by (simp add: bundleB_def)
  have mem: "(''00'', ''obj-B'') \<in> set ?store" by simp
  have alone: "snd (findBestMatch ?env 1000 [(zeroHash, ''obj-A'')] 3)
       = Some \<lparr>objectId = ''obj-A'', distance = 2, hash = zeroHash\<rparr>"
    by (simp add: findBestMatch_def sample_bundle search_entries_def bundleB_def sample_distances)
  have hashes: "\<forall>i h. image_hash ?env i = Some h \<longrightarrow> length h \<noteq> length ''00''"
    using l by (simp add: lab_env_def hashes_but_def)
  note inst = length_mismatch_is_not_surfaced[OF l, where env = ?env and img = 1000 and d = bundleB
      and t = 3]
  from inst[where oid = "''obj-A''" and rest = "[]"] sample_bundle p
  have first: "hammingDistance hashB ''00'' = Inl HashLengthsMustBeEqual
      \<and> hammingDistance_adv hashB ''00'' = \<infinity>
      \<and> findBestMatch ?env 1000 [(''00'', ''obj-A'')] 3 = ([PrimaryComparison hashB ''00''], None)"
    by blast
  from inst[where oid = "''obj-B''" and store = ?store] sample_bundle p mem
  have later: "snd (findBestMatch ?env 1000 ?store 3) = None"
    by blast
  from inst[where pre = "[zeroHash]" and post = "[]"] hashes
  have skip: "verifyImageMatch ?env 1000 ([zeroHash] @ ''00'' # [])
       = verifyImageMatch ?env 1000 ([zeroHash] @ [])"
    by blast
  from l first sample_bundle p alone mem later skip show ?thesis by blast
qed

lemma sample_mismatch: "hammingDistance_adv hashB ''00'' = \<infinity>"
  by (simp add: hammingDistance_adv_def hashB_def with_prefix_def zeroHash_def)

text \<open>
  Claim C5 as stated fails: the stored string \<open>00\<close> has not the length of the
  fingerprint \<open>hashB\<close>, the distance function of the verifier returns \<open>Infinity\<close> for
  the pair, and the verifier returns its ordinary unmatched report.
\<close>

theorem length_mismatch_counterexample:
  "length hashB \<noteq> length ''00''
   \<and> image_hash (lab_env (hashes_but hashB 0 None) hashF) 1000 = Some hashB
   \<and> hammingDistance_adv hashB ''00'' = \<infinity>
   \<and> overall (snd (verifyImageMatch (lab_env (hashes_but hashB 0 None) hashF) 1000 [''00'']))
       = \<lparr>matched = False, confidence = 0, matching_method = ''none''\<rparr>"
proof -
  have l: "length hashB \<noteq> length ''00''"
    by (simp add: hashB_def with_prefix_def zeroHash_def)
  have o: "overall (snd (verifyImageMatch (lab_env (hashes_but hashB 0 None) hashF) 1000 [''00'']))
       = \<lparr>matched = False, confidence = 0, matching_method = ''none''\<rparr>"
    by (simp add: verifyImageMatch_def lab_env_def hashes_but_def sample_mismatch rotationAngles_def
        initial_results_def Let_def)
  have h: "image_hash (lab_env (hashes_but hashB 0 None) hashF) 1000 = Some hashB"
    by (simp add: lab_env_def hashes_but_def)
  from l h sample_mismatch o show ?thesis by blast
qed

section \<open>The empty store\<close>

lemma stage2_loop_empty_store:
  "\<forall>a\<in>set angles. \<not> rotation_fails env nb a \<Longrightarrow>
   stage2_loop env nb [] angles (ops, r)
     = Next (ops @ concat (map (\<lambda>a. [OpRotate a, OpImageHash]) angles), r)"
  by (induction angles arbitrary: ops) (auto simp: rotation_fails_def split: option.splits)

lemma stage2_loop_empty_results:
  "stage2_loop env nb [] angles (ops, r) = Return (ops', r')
     \<or> stage2_loop env nb [] angles (ops, r) = Next (ops', r') \<Longrightarrow> r' = r"
  by (induction angles arbitrary: ops) (auto split: option.splits)

lemma stage2_loop_ops:
  "stage2_loop env nb stored angles (ops, r) = Return (ops', r')
     \<or> stage2_loop env nb stored angles (ops, r) = Next (ops', r') \<Longrightarrow> set ops \<subseteq> set ops'"
proof (induction angles arbitrary: ops r)
  case Nil
  then show ?case by auto
next
  case (Cons a angles)
  show ?case
  proof (cases "sharp_rotate env a nb")
    case None
    with Cons.prems show ?thesis by auto
  next
    case (Some rb)
    note rb = this
    show ?thesis
    proof (cases "image_hash env rb")
      case None
      with rb Cons.prems show ?thesis by auto
    next
      case (Some rh)
      show ?thesis
      proof (cases "stage2_scan rh stored r")
        case (Return r1)
        with rb Some Cons.prems show ?thesis by auto
      next
        case (Next r1)
        with rb Some Cons.prems
        have "stage2_loop env nb stored angles (ops @ [OpRotate a, OpImageHash], r1) = Return (ops', r')
            \<or> stage2_loop env nb stored angles (ops @ [OpRotate a, OpImageHash], r1) = Next (ops', r')"
          by simp
        from Cons.IH[OF this] show ?thesis by auto
      qed
    qed
  qed
qed

lemma stage2_loop_first_angle:
  "stage2_loop env nb stored (a # angles) (ops, r) = Return (ops', r')
     \<or> stage2_loop env nb stored (a # angles) (ops, r) = Next (ops', r') \<Longrightarrow> OpRotate a \<in> set ops'"
proof (cases "sharp_rotate env a nb")
  case None
  assume "stage2_loop env nb stored (a # angles) (ops, r) = Return (ops', r')
     \<or> stage2_loop env nb stored (a # angles) (ops, r) = Next (ops', r')"
  with None show ?thesis by auto
next
  case (Some rb)
  note rb = this
  assume res: "stage2_loop env nb stored (a # angles) (ops, r) = Return (ops', r')
     \<or> stage2_loop env nb stored (a # angles) (ops, r) = Next (ops', r')"
  show ?thesis
  proof (cases "image_hash env rb")
    case None
    with rb res show ?thesis by auto
  next
    case (Some rh)
    show ?thesis
    proof (cases "stage2_scan rh stored r")
      case (Return r1)
      with rb Some res show ?thesis by auto
    next
      case (Next r1)
      with rb Some res
      have "stage2_loop env nb stored angles (ops @ [OpRotate a, OpImageHash], r1) = Return (ops', r')
          \<or> stage2_loop env nb stored angles (ops @ [OpRotate a, OpImageHash], r1) = Next (ops', r')"
        by simp
      from stage2_loop_ops[OF this] show ?thesis by auto
    qed
  qed
qed

lemma flow_cases: "(\<exists>x. f = Return x) \<or> (\<exists>x. f = Next x)"
  by (cases f) auto

text \<open>
  Claim C9, amended. Against an empty store \<open>verifyImageMatch\<close> reports
  \<open>overall.matched = false\<close> for every image, but not at once: for an image that is
  normalised and hashed it goes through the rotation stage and rotates by the first angle,
  and when no rotation fails it rotates and hashes for every angle of the list and
  computes the histogram and the edge hash before it returns the initial report. The
  handler of \<open>/api/verify\<close> answers an empty database without calling the verifier and
  without any library call.
\<close>

theorem verifyImageMatch_empty_store:
  "\<not> matched (overall (snd (verifyImageMatch env img [])))
   \<and> (sharp_normalize env img = Some nb \<and> image_hash env nb = Some inputHash
      \<longrightarrow> OpRotate 5 \<in> set (fst (verifyImageMatch env img [])))
   \<and> (sharp_normalize env img = Some nb \<and> image_hash env nb = Some inputHash
        \<and> (\<forall>a\<in>set rotationAngles. \<not> rotation_fails env nb a)
      \<longrightarrow> verifyImageMatch env img []
            = ([OpNormalize, OpImageHash]
                 @ concat (map (\<lambda>a. [OpRotate a, OpImageHash]) rotationAngles)
                 @ [OpColorHistogram, OpEdgeHash],
               initial_results))
   \<and> api_verify env img []
       = ([], Inl \<lparr>verified = False, message = ''No objects in database to compare against''\<rparr>)"
proof -
  let ?ops = "[OpNormalize, OpImageHash]"
  have res: "snd (verifyImageMatch env img []) = initial_results
           \<and> (sharp_normalize env img = Some nb \<and> image_hash env nb = Some inputHash
              \<longrightarrow> OpRotate 5 \<in> set (fst (verifyImageMatch env img [])))"
  proof (cases "sharp_normalize env img")
    case None
    then show ?thesis by (simp add: verifyImageMatch_def)
  next
    case (Some nb')
    note nb' = this
    show ?thesis
    proof (cases "image_hash env nb'")
      case None
      with nb' show ?thesis by (auto simp: verifyImageMatch_def)
    next
      case (Some h)
      from flow_cases[of "stage2_loop env nb' [] rotationAngles (?ops, initial_results)"]
      obtain ops' r' where
        fl: "stage2_loop env nb' [] rotationAngles (?ops, initial_results) = Return (ops', r')
           \<or> stage2_loop env nb' [] rotationAngles (?ops, initial_results) = Next (ops', r')"
        by (metis surj_pair)
      from stage2_loop_empty_results[OF fl] have r': "r' = initial_results" .
      from fl have "OpRotate 5 \<in> set ops'"
        unfolding rotationAngles_def by (rule stage2_loop_first_angle)
      with fl nb' Some r' show ?thesis
        by (auto simp: verifyImageMatch_def Let_def)
    qed
  qed
  have full: "verifyImageMatch env img []
            = (?ops @ concat (map (\<lambda>a. [OpRotate a, OpImageHash]) rotationAngles)
                 @ [OpColorHistogram, OpEdgeHash],
               initial_results)"
    if "sharp_normalize env img = Some nb" "image_hash env nb = Some inputHash"
      "\<forall>a\<in>set rotationAngles. \<not> rotation_fails env nb a"
    using that stage2_loop_empty_store[OF that(3), of ?ops initial_results]
    by (simp add: verifyImageMatch_def Let_def)
  have api: "api_verify env img []
       = ([], Inl \<lparr>verified = False, message = ''No objects in database to compare against''\<rparr>)"
    by (simp add: api_verify_def)
  from res full api show ?thesis by (simp add: initial_results_def)
qed

theorem verifyImageMatch_empty_store_witness:
  "sharp_normalize (lab_env (hashes_but hashB 0 None) hashF) 1000 = Some 1000
   \<and> image_hash (lab_env (hashes_but hashB 0 None) hashF) 1000 = Some hashB
   \<and> list_all (\<lambda>a. \<not> rotation_fails (lab_env (hashes_but hashB 0 None) hashF) 1000 a)
         rotationAngles
   \<and> OpRotate 5 \<in> set (fst (verifyImageMatch (lab_env (hashes_but hashB 0 None) hashF) 1000 []))
   \<and> verifyImageMatch (lab_env (hashes_but hashB 0 None) hashF) 1000 []
       = ([OpNormalize, OpImageHash]
            @ concat (map (\<lambda>a. [OpRotate a, OpImageHash]) rotationAngles)
            @ [OpColorHistogram, OpEdgeHash],
          initial_results)"
proof -
  let ?env = "lab_env (hashes_but hashB 0 None) hashF"
  have n: "sharp_normalize ?env 1000 = Some 1000" by (simp add: lab_env_def)
  have h: "image_hash ?env 1000 = Some hashB" by (simp add: lab_env_def hashes_but_def)
  have ok: "\<forall>a\<in>set rotationAngles. \<not> rotation_fails ?env 1000 a"
    by (simp add: rotationAngles_def rotation_fails_def lab_env_def hashes_but_def)
  from verifyImageMatch_empty_store[of ?env 1000 1000 hashB] n h ok
  have "OpRotate 5 \<in> set (fst (verifyImageMatch ?env 1000 []))
      \<and> verifyImageMatch ?env 1000 []
          = ([OpNormalize, OpImageHash]
               @ concat (map (\<lambda>a. [OpRotate a, OpImageHash]) rotationAngles)
               @ [OpColorHistogram, OpEdgeHash],
             initial_results)"
    by blast
  moreover have "list_all (\<lambda>a. \<not> rotation_fails ?env 1000 a) rotationAngles"
    using ok by (simp add: list_all_iff)
  ultimately show ?thesis using n h by blast
qed

text \<open>
  Claim C9 as stated fails: with an empty store the verifier rotates the decodable image
  1000 by each of the eleven angles and hashes each rotated image.
\<close>

theorem verifyImageMatch_empty_store_counterexample:
  "sharp_normalize (lab_env (hashes_but hashB 0 None) hashF) 1000 = Some 1000
   \<and> fst (verifyImageMatch (lab_env (hashes_but hashB 0 None) hashF) 1000 [])
       = [OpNormalize, OpImageHash, OpRotate 5, OpImageHash, OpRotate 10, OpImageHash,
          OpRotate 15, OpImageHash, OpRotate 30, OpImageHash, OpRotate 45, OpImageHash,
          OpRotate 90, OpImageHash, OpRotate 180, OpImageHash, OpRotate 270, OpImageHash,
          OpRotate 345, OpImageHash, OpRotate 350, OpImageHash, OpRotate 355, OpImageHash,
          OpColorHistogram, OpEdgeHash]"
  by (simp add: verifyImageMatch_def lab_env_def hashes_but_def rotationAngles_def Let_def)

end
